theory Spec2Isabelle
  imports Main
begin

section \<open>JavaScript strings\<close>

text \<open>
  A JavaScript string is modelled as a \<^typ>\<open>string\<close>: the list of its code units, for the
  strings all of whose code units are below 256. \<open>length\<close> is then the \<open>.length\<close> of the
  source.
\<close>

text \<open>\<^verbatim>\<open>s.startsWith(p)\<close> and \<^verbatim>\<open>s.endsWith(p)\<close>.\<close>

definition startsWith :: "string \<Rightarrow> string \<Rightarrow> bool" where
  "startsWith s p = (take (length p) s = p)"

definition endsWith :: "string \<Rightarrow> string \<Rightarrow> bool" where
  "endsWith s p = (length p \<le> length s \<and> drop (length s - length p) s = p)"

text \<open>\<^verbatim>\<open>s.split(c)\<close> for a one-character separator: the empty string splits into one
  empty segment.\<close>

fun splitOn :: "char \<Rightarrow> string \<Rightarrow> string list" where
  "splitOn c [] = [[]]"
| "splitOn c (x # xs) =
     (if x = c then [] # splitOn c xs
      else (case splitOn c xs of
              [] \<Rightarrow> [[x]]
            | seg # segs \<Rightarrow> (x # seg) # segs))"

text \<open>\<^verbatim>\<open>xs.join(sep)\<close>.\<close>

fun joinWith :: "string \<Rightarrow> string list \<Rightarrow> string" where
  "joinWith sep [] = []"
| "joinWith sep [x] = x"
| "joinWith sep (x # y # ys) = x @ sep @ joinWith sep (y # ys)"

text \<open>\<^verbatim>\<open>s.replace(/\/\.\//g, '/')\<close>: every occurrence of \<^verbatim>\<open>/./\<close>, found from left to
  right without overlap, becomes \<^verbatim>\<open>/\<close>.\<close>

fun replaceSlashDotSlash :: "string \<Rightarrow> string" where
  "replaceSlashDotSlash (a # b # c # r) =
     (if a = CHR ''/'' \<and> b = CHR ''.'' \<and> c = CHR ''/''
      then CHR ''/'' # replaceSlashDotSlash r
      else a # replaceSlashDotSlash (b # c # r))"
| "replaceSlashDotSlash s = s"

text \<open>\<^verbatim>\<open>s.replace(/^\.\//, '')\<close>: a leading \<^verbatim>\<open>./\<close> is removed, once.\<close>

definition stripDotSlash :: "string \<Rightarrow> string" where
  "stripDotSlash s = (if startsWith s ''./'' then drop 2 s else s)"

section \<open>Path normalisation (the reduce of loadSourceFile)\<close>

text \<open>
  \<^verbatim>\<open>resolvedPath.split('/').reduce((acc, part) => {
       if (part === '..') acc.pop()
       else if (part !== '.') acc.push(part)
       return acc }, []).join('/')\<close>
  \<^verbatim>\<open>pop\<close> on an empty array leaves it empty, as \<^const>\<open>butlast\<close> does.
\<close>

definition normalizeStep :: "string list \<Rightarrow> string \<Rightarrow> string list" where
  "normalizeStep acc part =
     (if part = ''..'' then butlast acc
      else if part \<noteq> ''.'' then acc @ [part]
      else acc)"

definition normalizeSegments :: "string \<Rightarrow> string list" where
  "normalizeSegments p = foldl normalizeStep [] (splitOn CHR ''/'' p)"

definition normalizePath :: "string \<Rightarrow> string" where
  "normalizePath p = joinWith ''/'' (normalizeSegments p)"

section \<open>The session: registered files and the type-checking engine\<close>

text \<open>
  \<open>loadedFiles\<close> is the module-level \<^verbatim>\<open>Set\<close>; \<open>tsExtraLibs\<close> and \<open>jsExtraLibs\<close> record,
  in call order, the \<^verbatim>\<open>(content, uri)\<close> arguments of every \<^verbatim>\<open>addExtraLib\<close> call on
  \<^verbatim>\<open>typescriptDefaults\<close> and \<^verbatim>\<open>javascriptDefaults\<close>; \<open>packageLoads\<close> records, in call
  order, the argument of every call of \<^verbatim>\<open>loadPackageTypes\<close>.
\<close>

record session =
  loadedFiles :: "string set"
  tsExtraLibs :: "(string \<times> string) list"
  jsExtraLibs :: "(string \<times> string) list"
  packageLoads :: "string list"

definition emptySession :: session where
  "emptySession =
     \<lparr>loadedFiles = {}, tsExtraLibs = [], jsExtraLibs = [], packageLoads = []\<rparr>"

definition fileUri :: "string \<Rightarrow> string" where
  "fileUri filePath = ''file:///'' @ filePath"

definition addFileToMonaco :: "string \<Rightarrow> string \<Rightarrow> session \<Rightarrow> session" where
  "addFileToMonaco filePath content st =
     (if filePath \<in> loadedFiles st then st
      else st\<lparr>loadedFiles := insert filePath (loadedFiles st),
              tsExtraLibs := tsExtraLibs st @ [(content, fileUri filePath)],
              jsExtraLibs := jsExtraLibs st @ [(content, fileUri filePath)]\<rparr>)"

text \<open>A session's history of register calls, replayed from the empty session.\<close>

definition registerAll :: "(string \<times> string) list \<Rightarrow> session" where
  "registerAll calls = foldl (\<lambda>st (p, c). addFileToMonaco p c st) emptySession calls"

text \<open>The engine has been fed each registered path once and nothing else.\<close>

definition fedOnce :: "session \<Rightarrow> bool" where
  "fedOnce st =
     (distinct (map snd (tsExtraLibs st)) \<and>
      set (map snd (tsExtraLibs st)) = fileUri ` loadedFiles st \<and>
      jsExtraLibs st = tsExtraLibs st)"

section \<open>Regular expressions\<close>

text \<open>
  The two regular expressions of the resolver use literals, character classes, greedy
  \<^verbatim>\<open>*\<close> and \<^verbatim>\<open>+\<close> on a class, sequence, alternation, an optional group, one capture
  group and the end anchor. \<open>ms r (s, cap)\<close> lists, in the order in which a backtracking
  matcher tries them, the ways \<open>r\<close> matches a prefix of \<open>s\<close>: each as the input that is left
  and the text of capture group 1. The match that \<^verbatim>\<open>exec\<close> reports is the first of the list.
\<close>

definition isSpace :: "char \<Rightarrow> bool" where
  "isSpace c = ((of_char c :: nat) \<in> {9, 10, 11, 12, 13, 32, 160})"

definition isWordChar :: "char \<Rightarrow> bool" where
  "isWordChar c =
     (let n = (of_char c :: nat)
      in (48 \<le> n \<and> n \<le> 57) \<or> (65 \<le> n \<and> n \<le> 90) \<or> n = 95 \<or> (97 \<le> n \<and> n \<le> 122))"

definition isQuote :: "char \<Rightarrow> bool" where
  "isQuote c = (c = CHR 0x27 \<or> c = CHR 0x22)"

definition isLineTerminator :: "char \<Rightarrow> bool" where
  "isLineTerminator c = (c = CHR 0x0A \<or> c = CHR 0x0D)"

datatype rx =
    Lit string
  | Cls "char \<Rightarrow> bool"
  | Star "char \<Rightarrow> bool"
  | Plus "char \<Rightarrow> bool"
  | Seq rx rx
  | Alt rx rx
  | Opt rx
  | Grp rx
  | Eos

text \<open>The inputs left by a greedy \<^verbatim>\<open>[class]*\<close>, longest match first, and by \<^verbatim>\<open>[class]+\<close>.\<close>

fun starRests :: "(char \<Rightarrow> bool) \<Rightarrow> string \<Rightarrow> string list" where
  "starRests P [] = [[]]"
| "starRests P (x # t) = (if P x then starRests P t @ [x # t] else [x # t])"

fun plusRests :: "(char \<Rightarrow> bool) \<Rightarrow> string \<Rightarrow> string list" where
  "plusRests P [] = []"
| "plusRests P (x # t) = (if P x then starRests P t else [])"

type_synonym mstate = "string \<times> string option"

fun ms :: "rx \<Rightarrow> mstate \<Rightarrow> mstate list" where
  "ms (Lit l) (s, cap) = (if startsWith s l then [(drop (length l) s, cap)] else [])"
| "ms (Cls P) (s, cap) = (case s of [] \<Rightarrow> [] | x # t \<Rightarrow> if P x then [(t, cap)] else [])"
| "ms (Star P) (s, cap) = map (\<lambda>r. (r, cap)) (starRests P s)"
| "ms (Plus P) (s, cap) = map (\<lambda>r. (r, cap)) (plusRests P s)"
| "ms (Seq a b) m = concat (map (ms b) (ms a m))"
| "ms (Alt a b) m = ms a m @ ms b m"
| "ms (Opt a) m = ms a m @ [m]"
| "ms (Grp a) (s, cap) =
     map (\<lambda>(r, _). (r, Some (take (length s - length r) s))) (ms a (s, cap))"
| "ms Eos (s, cap) = (if s = [] then [(s, cap)] else [])"

text \<open>One attempt of the matcher at the start of \<open>s\<close>: the input left after the match and
  capture group 1.\<close>

definition regexExecAt :: "rx \<Rightarrow> string \<Rightarrow> mstate option" where
  "regexExecAt r s = (case ms r (s, None) of [] \<Rightarrow> None | m # _ \<Rightarrow> Some m)"

fun seqs :: "rx list \<Rightarrow> rx" where
  "seqs [] = Lit []"
| "seqs [r] = r"
| "seqs (r # rs) = Seq r (seqs rs)"

text \<open>
  \<^verbatim>\<open>/(?:import|export)\s+(?:(?:\{[^}]*\}|\*\s+as\s+\w+|\w+)\s+from\s+)?['"]([^'"]+)['"]/g\<close>
\<close>

definition importRegex :: rx where
  "importRegex =
     seqs [Alt (Lit ''import'') (Lit ''export''),
           Plus isSpace,
           Opt (seqs [Alt (seqs [Lit ''{'', Star (\<lambda>c. c \<noteq> CHR ''}''), Lit ''}''])
                     (Alt (seqs [Lit ''*'', Plus isSpace, Lit ''as'', Plus isSpace,
                                 Plus isWordChar])
                          (Plus isWordChar)),
                      Plus isSpace, Lit ''from'', Plus isSpace]),
           Cls isQuote,
           Grp (Plus (\<lambda>c. \<not> isQuote c)),
           Cls isQuote]"

lemma starRests_length: "r \<in> set (starRests P s) \<Longrightarrow> length r \<le> length s"
  by (induction s) (auto split: if_splits)

lemma plusRests_length: "r \<in> set (plusRests P s) \<Longrightarrow> length r < length s"
  by (cases s) (auto split: if_splits dest: starRests_length)

lemma ms_length: "(r, c') \<in> set (ms x (s, c)) \<Longrightarrow> length r \<le> length s"
proof (induction x arbitrary: s c r c')
  case (Lit l)
  then show ?case by (auto split: if_splits)
next
  case (Cls P)
  then show ?case by (auto split: if_splits list.splits)
next
  case (Star P)
  then show ?case by (auto dest: starRests_length)
next
  case (Plus P)
  then show ?case by (auto dest: plusRests_length less_imp_le)
next
  case (Seq a b)
  then obtain r1 c1 where "(r1, c1) \<in> set (ms a (s, c))" "(r, c') \<in> set (ms b (r1, c1))"
    by auto
  then show ?case using Seq.IH(1) [of r1 c1 s c] Seq.IH(2) [of r c' r1 c1] by simp
next
  case (Alt a b)
  then show ?case by auto
next
  case (Opt a)
  then show ?case by auto
next
  case (Grp a)
  then show ?case by auto
next
  case Eos
  then show ?case by (auto split: if_splits)
qed

lemma startsWith_append: "startsWith s l \<longleftrightarrow> (\<exists>r. s = l @ r)"
  unfolding startsWith_def
  by (metis append_eq_conv_conj append_take_drop_id)

lemma ms_Lit: "(r, c') \<in> set (ms (Lit l) (s, c)) \<longleftrightarrow> s = l @ r \<and> c' = c"
  by (auto simp: startsWith_append)

lemma ms_Seq_iff:
  "m' \<in> set (ms (Seq a b) m) \<longleftrightarrow> (\<exists>m1 \<in> set (ms a m). m' \<in> set (ms b m1))"
  by auto

lemma ms_Seq_keyword:
  assumes "(r, c') \<in> set (ms (Seq (Alt (Lit ''import'') (Lit ''export'')) x) (s, c))"
  shows "\<exists>r1. (s = ''import'' @ r1 \<or> s = ''export'' @ r1) \<and> (r, c') \<in> set (ms x (r1, c))"
proof -
  from assms obtain r1 c1 where
    a: "(r1, c1) \<in> set (ms (Alt (Lit ''import'') (Lit ''export'')) (s, c))" and
    b: "(r, c') \<in> set (ms x (r1, c1))"
    unfolding ms_Seq_iff by auto
  from a have "(r1, c1) \<in> set (ms (Lit ''import'') (s, c)) \<or>
      (r1, c1) \<in> set (ms (Lit ''export'') (s, c))"
    by simp
  then have "(s = ''import'' @ r1 \<or> s = ''export'' @ r1) \<and> c1 = c"
    unfolding ms_Lit by blast
  with b show ?thesis by blast
qed

lemma importRegex_consumes:
  "regexExecAt importRegex s = Some (rest, cap) \<Longrightarrow> length rest < length s"
proof -
  assume "regexExecAt importRegex s = Some (rest, cap)"
  then have "(rest, cap) \<in> set (ms importRegex (s, None))"
    by (auto simp: regexExecAt_def split: list.splits)
  then obtain r1 where r1: "s = ''import'' @ r1 \<or> s = ''export'' @ r1"
    and m: "(rest, cap) \<in> set (ms (seqs [Plus isSpace,
           Opt (seqs [Alt (seqs [Lit ''{'', Star (\<lambda>c. c \<noteq> CHR ''}''), Lit ''}''])
                     (Alt (seqs [Lit ''*'', Plus isSpace, Lit ''as'', Plus isSpace,
                                 Plus isWordChar])
                          (Plus isWordChar)),
                      Plus isSpace, Lit ''from'', Plus isSpace]),
           Cls isQuote,
           Grp (Plus (\<lambda>c. \<not> isQuote c)),
           Cls isQuote]) (r1, None))"
    unfolding importRegex_def seqs.simps(3) by (blast dest: ms_Seq_keyword)
  from m have "length rest \<le> length r1" by (rule ms_length)
  with r1 show ?thesis by auto
qed

text \<open>
  \<^verbatim>\<open>while ((match = importRegex.exec(content)) !== null) { const importPath = match[1] ... }\<close>:
  the successive values of \<^verbatim>\<open>match[1]\<close>. With the \<^verbatim>\<open>g\<close> flag each \<^verbatim>\<open>exec\<close> tries the start
  positions from \<^verbatim>\<open>lastIndex\<close> on and sets \<^verbatim>\<open>lastIndex\<close> to the end of the match it finds.
  Group 1 takes part in every match of \<open>importRegex\<close>, so the branch for an unset group is
  never taken.
\<close>

function importSpecifiers :: "string \<Rightarrow> string list" where
  "importSpecifiers s =
     (case regexExecAt importRegex s of
        Some (rest, cap) \<Rightarrow>
          (case cap of
             Some importPath \<Rightarrow> importPath # importSpecifiers rest
           | None \<Rightarrow> importSpecifiers rest)
      | None \<Rightarrow>
          (case s of
             [] \<Rightarrow> []
           | _ # t \<Rightarrow> importSpecifiers t))"
  by pat_completeness auto
termination
  by (relation "measure length") (auto dest: importRegex_consumes)

declare importSpecifiers.simps [simp del]

section \<open>Alias resolution (resolvePathAlias)\<close>

text \<open>\<^verbatim>\<open>s.replace(pat, repl)\<close> with a string pattern: the first occurrence of \<open>pat\<close> is
  replaced; in \<open>repl\<close> the sequences \<^verbatim>\<open>$$\<close>, \<^verbatim>\<open>$&\<close>, \<^verbatim>\<open>$`\<close> and \<^verbatim>\<open>$'\<close> stand for a dollar
  sign, the matched text, the text before it and the text after it (a string pattern has no
  groups, so every other \<^verbatim>\<open>$\<close> is literal).\<close>

fun findFirst :: "string \<Rightarrow> string \<Rightarrow> (string \<times> string) option" where
  "findFirst pat [] = (if pat = [] then Some ([], []) else None)"
| "findFirst pat (x # xs) =
     (if startsWith (x # xs) pat then Some ([], drop (length pat) (x # xs))
      else map_option (\<lambda>(front, back). (x # front, back)) (findFirst pat xs))"

fun getSubstitution :: "string \<Rightarrow> string \<Rightarrow> string \<Rightarrow> string \<Rightarrow> string" where
  "getSubstitution matched front back (d # c # r) =
     (if d = CHR ''$'' \<and> c = CHR ''$'' then CHR ''$'' # getSubstitution matched front back r
      else if d = CHR ''$'' \<and> c = CHR ''&'' then matched @ getSubstitution matched front back r
      else if d = CHR ''$'' \<and> c = CHR 0x60 then front @ getSubstitution matched front back r
      else if d = CHR ''$'' \<and> c = CHR 0x27 then back @ getSubstitution matched front back r
      else d # getSubstitution matched front back (c # r))"
| "getSubstitution matched front back r = r"

definition jsReplace :: "string \<Rightarrow> string \<Rightarrow> string \<Rightarrow> string" where
  "jsReplace s pat repl =
     (case findFirst pat s of
        None \<Rightarrow> s
      | Some (front, back) \<Rightarrow> front @ getSubstitution pat front back repl @ back)"

text \<open>\<^verbatim>\<open>s.replace(/[.*+?^${}()|[\]\\]/g, '\\$&')\<close>: a backslash before each of the
  characters \<^verbatim>\<open>. * + ? ^ $ { } ( ) | [ ]\<close> and before each backslash.\<close>

definition isRegexSpecial :: "char \<Rightarrow> bool" where
  "isRegexSpecial c = (c \<in> set ''.*+?^${}()|[]'' \<or> c = CHR 0x5C)"

definition escapeRegex :: "string \<Rightarrow> string" where
  "escapeRegex s = concat (map (\<lambda>c. if isRegexSpecial c then [CHR 0x5C, c] else [c]) s)"

text \<open>
  \<^verbatim>\<open>const aliasPattern = alias.replace('*', '(.*)')\<close> and the text that the source puts
  between \<^verbatim>\<open>^\<close> and \<^verbatim>\<open>$\<close> in \<^verbatim>\<open>new RegExp(...)\<close>: the escaped \<open>aliasPattern\<close>, in which the
  first escaped \<^verbatim>\<open>(.*)\<close> is made a group again.
\<close>

definition aliasRegexSource :: "string \<Rightarrow> string" where
  "aliasRegexSource alias =
     (let aliasPattern = jsReplace alias ''*'' ''(.*)''
      in jsReplace (escapeRegex aliasPattern)
           [CHR 0x5C, CHR ''('', CHR 0x5C, CHR ''.'', CHR 0x5C, CHR ''*'', CHR 0x5C, CHR '')'']
           ''(.*)'')"

text \<open>
  The regular expression that such a source text denotes: a backslash and a character is
  that character, \<^verbatim>\<open>(.*)\<close> is capture group 1 around a greedy run of characters other than
  line terminators, and any other character is itself. (In an \<open>aliasRegexSource\<close> every
  other special character has its backslash.)
\<close>

fun parseEscaped :: "string \<Rightarrow> rx list" where
  "parseEscaped (a # b # c # d # r) =
     (if a = CHR 0x5C then Lit [b] # parseEscaped (c # d # r)
      else if [a, b, c, d] = ''(.*)'' then
        Grp (Star (\<lambda>x. \<not> isLineTerminator x)) # parseEscaped r
      else Lit [a] # parseEscaped (b # c # d # r))"
| "parseEscaped (a # b # r) =
     (if a = CHR 0x5C then Lit [b] # parseEscaped r
      else Lit [a] # parseEscaped (b # r))"
| "parseEscaped [a] = [Lit [a]]"
| "parseEscaped [] = []"

text \<open>The leading \<^verbatim>\<open>^\<close> lets \<^verbatim>\<open>importPath.match(regex)\<close> match at index 0 only, which is
  where \<^const>\<open>regexExecAt\<close> matches; the trailing \<^verbatim>\<open>$\<close> is \<^const>\<open>Eos\<close>.\<close>

definition aliasRegex :: "string \<Rightarrow> rx" where
  "aliasRegex alias = seqs (parseEscaped (aliasRegexSource alias) @ [Eos])"

text \<open>\<^verbatim>\<open>importPath.match(regex)\<close> and \<^verbatim>\<open>match[1] || ''\<close>: the captured text when the alias
  pattern matches.\<close>

definition aliasMatch :: "string \<Rightarrow> string \<Rightarrow> string option" where
  "aliasMatch alias importPath =
     (case regexExecAt (aliasRegex alias) importPath of
        None \<Rightarrow> None
      | Some (_, cap) \<Rightarrow> Some (case cap of None \<Rightarrow> [] | Some captured \<Rightarrow> captured))"

text \<open>The module-level \<^verbatim>\<open>tsconfigPaths\<close> (as \<^verbatim>\<open>Object.entries\<close> lists it) and
  \<^verbatim>\<open>tsconfigBaseUrl\<close>, both assigned by \<^verbatim>\<open>loadTsConfig\<close> and only read afterwards.\<close>

record tsconfig =
  tsconfigPaths :: "(string \<times> string list) list"
  tsconfigBaseUrl :: string

text \<open>The body of \<^verbatim>\<open>for (const target of targets)\<close>, which returns in its first round.\<close>

definition aliasTarget :: "string \<Rightarrow> string \<Rightarrow> string \<Rightarrow> string" where
  "aliasTarget baseUrl target captured =
     (let resolvedPath = jsReplace target ''*'' captured;
          fullPath = (if baseUrl \<noteq> [] then baseUrl @ ''/'' @ resolvedPath else resolvedPath)
      in stripDotSlash fullPath)"

fun resolveEntries :: "string \<Rightarrow> (string \<times> string list) list \<Rightarrow> string \<Rightarrow> string option" where
  "resolveEntries baseUrl [] importPath = None"
| "resolveEntries baseUrl ((alias, targets) # entries) importPath =
     (case aliasMatch alias importPath of
        None \<Rightarrow> resolveEntries baseUrl entries importPath
      | Some captured \<Rightarrow>
          (case targets of
             [] \<Rightarrow> resolveEntries baseUrl entries importPath
           | target # _ \<Rightarrow> Some (aliasTarget baseUrl target captured)))"

definition resolvePathAlias :: "tsconfig \<Rightarrow> string \<Rightarrow> string option" where
  "resolvePathAlias cfg importPath =
     resolveEntries (tsconfigBaseUrl cfg) (tsconfigPaths cfg) importPath"

section \<open>The filesystem API\<close>

text \<open>\<^verbatim>\<open>window.gitton.fs\<close>: each call resolves to a value or rejects. The answers do not
  change while the resolver runs.\<close>

datatype io_error = IOError

record dirent =
  name :: string
  isDirectory :: bool

record gitton_fs =
  readFile :: "string \<Rightarrow> io_error + string"
  readdir :: "string \<Rightarrow> io_error + dirent list"
  exists :: "string \<Rightarrow> io_error + bool"

section \<open>The recursive source loader (loadSourceFile)\<close>

definition extensions :: "string list" where
  "extensions =
     [[], ''.ts'', ''.tsx'', ''.js'', ''.jsx'',
      ''/index.ts'', ''/index.tsx'', ''/index.js'', ''/index.jsx'']"

text \<open>What the body of the \<^verbatim>\<open>while\<close> loop computes for one specifier, up to the recursive
  call: \<open>None\<close> where the source says \<^verbatim>\<open>continue\<close>, else the normalised path it recurses
  into. An alias result that is \<^verbatim>\<open>null\<close> or the empty string is falsy.\<close>

definition resolveImport :: "tsconfig \<Rightarrow> string \<Rightarrow> string \<Rightarrow> string option" where
  "resolveImport cfg fullPath importPath =
     (if \<not> startsWith importPath ''.'' \<and> \<not> startsWith importPath ''@/'' \<and>
         \<not> startsWith importPath ''~/''
      then None
      else if startsWith importPath ''.'' then
        (let dir = joinWith ''/'' (butlast (splitOn CHR ''/'' fullPath))
         in Some (normalizePath (replaceSlashDotSlash (dir @ ''/'' @ importPath))))
      else
        (case resolvePathAlias cfg importPath of
           None \<Rightarrow> None
         | Some aliasResolved \<Rightarrow>
             if aliasResolved \<noteq> [] then Some (normalizePath aliasResolved) else None))"

text \<open>
  \<open>loadSourceFile\<close> is the function, \<open>tryExtensions\<close> its \<^verbatim>\<open>for (const ext of extensions)\<close>
  loop from the extensions still to try, \<open>loadImports\<close> its \<^verbatim>\<open>while\<close> loop from the
  specifiers still to come. A rejected \<^verbatim>\<open>exists\<close> or \<^verbatim>\<open>readFile\<close> lands in the \<^verbatim>\<open>catch\<close> of
  the round and the loop goes on; the \<^verbatim>\<open>return\<close> after the \<^verbatim>\<open>while\<close> loop ends it.
  \<open>gitton\<close> is \<open>None\<close> where \<^verbatim>\<open>typeof window.gitton === 'undefined'\<close>.
\<close>

function loadSourceFile :: "gitton_fs option \<Rightarrow> tsconfig \<Rightarrow> string \<Rightarrow> nat \<Rightarrow> session \<Rightarrow> session"
  and tryExtensions :: "gitton_fs \<Rightarrow> tsconfig \<Rightarrow> string \<Rightarrow> nat \<Rightarrow> string list \<Rightarrow> session \<Rightarrow> session"
  and loadImports :: "gitton_fs \<Rightarrow> tsconfig \<Rightarrow> string \<Rightarrow> nat \<Rightarrow> string list \<Rightarrow> session \<Rightarrow> session"
where
  "loadSourceFile gitton cfg filePath depth st =
     (case gitton of
        None \<Rightarrow> st
      | Some fs \<Rightarrow>
          if depth > 5 then st
          else if filePath \<in> loadedFiles st then st
          else tryExtensions fs cfg filePath depth extensions st)"
| "tryExtensions fs cfg filePath depth [] st = st"
| "tryExtensions fs cfg filePath depth (ext # exts) st =
     (let fullPath = filePath @ ext
      in case exists fs fullPath of
           Inl e \<Rightarrow> tryExtensions fs cfg filePath depth exts st
         | Inr found \<Rightarrow>
             if found then
               (case readFile fs fullPath of
                  Inl e \<Rightarrow> tryExtensions fs cfg filePath depth exts st
                | Inr content \<Rightarrow>
                    loadImports fs cfg fullPath depth (importSpecifiers content)
                      (addFileToMonaco fullPath content st))
             else tryExtensions fs cfg filePath depth exts st)"
| "loadImports fs cfg fullPath depth [] st = st"
| "loadImports fs cfg fullPath depth (importPath # specs) st =
     (case resolveImport cfg fullPath importPath of
        None \<Rightarrow> loadImports fs cfg fullPath depth specs st
      | Some resolvedPath \<Rightarrow>
          loadImports fs cfg fullPath depth specs
            (loadSourceFile (Some fs) cfg resolvedPath (depth + 1) st))"
  by pat_completeness auto
termination
  by (relation "measures
        [\<lambda>x. case x of
                Inl (g, cfg, p, d, st) \<Rightarrow> 7 - d
              | Inr (Inl (fs, cfg, p, d, exts, st)) \<Rightarrow> 6 - d
              | Inr (Inr (fs, cfg, p, d, imps, st)) \<Rightarrow> 6 - d,
         \<lambda>x. case x of
                Inl (g, cfg, p, d, st) \<Rightarrow> 0
              | Inr (Inl (fs, cfg, p, d, exts, st)) \<Rightarrow> 2
              | Inr (Inr (fs, cfg, p, d, imps, st)) \<Rightarrow> 1,
         \<lambda>x. case x of
                Inl (g, cfg, p, d, st) \<Rightarrow> 0
              | Inr (Inl (fs, cfg, p, d, exts, st)) \<Rightarrow> length exts
              | Inr (Inr (fs, cfg, p, d, imps, st)) \<Rightarrow> length imps]")
     auto

declare loadSourceFile.simps [simp del]

section \<open>The declaration crawler (loadDtsFromDir)\<close>

text \<open>The \<^verbatim>\<open>try\<close> block of the crawler for a \<^verbatim>\<open>.d.ts\<close> entry: an unreadable file is
  skipped, a file of 500 * 1024 code units or more is skipped.\<close>

definition loadDtsFile :: "gitton_fs \<Rightarrow> string \<Rightarrow> session \<Rightarrow> session" where
  "loadDtsFile fs fullPath st =
     (case readFile fs fullPath of
        Inl e \<Rightarrow> st
      | Inr content \<Rightarrow>
          if length content < 500 * 1024 then addFileToMonaco fullPath content st else st)"

definition heavyDirectory :: "string \<Rightarrow> bool" where
  "heavyDirectory n =
     (n = ''test'' \<or> n = ''tests'' \<or> n = ''__tests__'' \<or> n = ''examples'' \<or>
      n = ''docs'' \<or> n = ''.git'')"

definition entryPath :: "string \<Rightarrow> dirent \<Rightarrow> string" where
  "entryPath dirPath entry = (if dirPath \<noteq> [] then dirPath @ ''/'' @ name entry else name entry)"

text \<open>\<open>loadDtsFromDir\<close> is the function, \<open>crawlEntries\<close> its \<^verbatim>\<open>for (const entry of entries)\<close>
  loop from the entries still to come. A rejected \<^verbatim>\<open>readdir\<close> lands in the outer \<^verbatim>\<open>catch\<close>.\<close>

function loadDtsFromDir :: "gitton_fs option \<Rightarrow> string \<Rightarrow> nat \<Rightarrow> nat \<Rightarrow> session \<Rightarrow> session"
  and crawlEntries :: "gitton_fs \<Rightarrow> string \<Rightarrow> nat \<Rightarrow> nat \<Rightarrow> dirent list \<Rightarrow> session \<Rightarrow> session"
where
  "loadDtsFromDir gitton dirPath maxDepth currentDepth st =
     (case gitton of
        None \<Rightarrow> st
      | Some fs \<Rightarrow>
          if currentDepth > maxDepth then st
          else (case readdir fs dirPath of
                  Inl e \<Rightarrow> st
                | Inr entries \<Rightarrow> crawlEntries fs dirPath maxDepth currentDepth entries st))"
| "crawlEntries fs dirPath maxDepth currentDepth [] st = st"
| "crawlEntries fs dirPath maxDepth currentDepth (entry # entries) st =
     (if startsWith (name entry) ''.'' then
        crawlEntries fs dirPath maxDepth currentDepth entries st
      else if isDirectory entry then
        (if heavyDirectory (name entry) then
           crawlEntries fs dirPath maxDepth currentDepth entries st
         else
           crawlEntries fs dirPath maxDepth currentDepth entries
             (loadDtsFromDir (Some fs) (entryPath dirPath entry) maxDepth (currentDepth + 1) st))
      else if endsWith (name entry) ''.d.ts'' then
        crawlEntries fs dirPath maxDepth currentDepth entries
          (loadDtsFile fs (entryPath dirPath entry) st)
      else crawlEntries fs dirPath maxDepth currentDepth entries st)"
  by pat_completeness auto
termination
  by (relation "measures
        [\<lambda>x. case x of
                Inl (g, p, m, d, st) \<Rightarrow> m + 1 - d
              | Inr (fs, p, m, d, es, st) \<Rightarrow> m - d,
         \<lambda>x. case x of
                Inl (g, p, m, d, st) \<Rightarrow> 0
              | Inr (fs, p, m, d, es, st) \<Rightarrow> 1,
         \<lambda>x. case x of
                Inl (g, p, m, d, st) \<Rightarrow> 0
              | Inr (fs, p, m, d, es, st) \<Rightarrow> length es]")
     auto

declare loadDtsFromDir.simps [simp del]

text \<open>The declaration files a crawl comes to: the \<^verbatim>\<open>.d.ts\<close> entries, not hidden, of the
  directory and of its subdirectories that are neither hidden nor heavy, down to the depth
  bound.\<close>

function declarationFiles :: "gitton_fs \<Rightarrow> string \<Rightarrow> nat \<Rightarrow> nat \<Rightarrow> string list"
  and declarationFilesOf :: "gitton_fs \<Rightarrow> string \<Rightarrow> nat \<Rightarrow> nat \<Rightarrow> dirent list \<Rightarrow> string list"
where
  "declarationFiles fs dirPath maxDepth currentDepth =
     (if currentDepth > maxDepth then []
      else (case readdir fs dirPath of
              Inl e \<Rightarrow> []
            | Inr entries \<Rightarrow> declarationFilesOf fs dirPath maxDepth currentDepth entries))"
| "declarationFilesOf fs dirPath maxDepth currentDepth [] = []"
| "declarationFilesOf fs dirPath maxDepth currentDepth (entry # entries) =
     (if startsWith (name entry) ''.'' then []
      else if isDirectory entry then
        (if heavyDirectory (name entry) then []
         else declarationFiles fs (entryPath dirPath entry) maxDepth (currentDepth + 1))
      else if endsWith (name entry) ''.d.ts'' then [entryPath dirPath entry]
      else [])
     @ declarationFilesOf fs dirPath maxDepth currentDepth entries"
  by pat_completeness auto
termination
  by (relation "measures
        [\<lambda>x. case x of
                Inl (fs, p, m, d) \<Rightarrow> m + 1 - d
              | Inr (fs, p, m, d, es) \<Rightarrow> m - d,
         \<lambda>x. case x of
                Inl (fs, p, m, d) \<Rightarrow> 0
              | Inr (fs, p, m, d, es) \<Rightarrow> 1,
         \<lambda>x. case x of
                Inl (fs, p, m, d) \<Rightarrow> 0
              | Inr (fs, p, m, d, es) \<Rightarrow> length es]")
     auto

declare declarationFiles.simps [simp del]

section \<open>The package type loader\<close>

text \<open>How an \<^verbatim>\<open>async\<close> function ends: it returns, or it rejects with the error of an
  \<^verbatim>\<open>await\<close> outside any \<^verbatim>\<open>try\<close>. The session keeps what was done before.\<close>

datatype completion = Returned | Rejected io_error

text \<open>\<^verbatim>\<open>JSON.parse(pkgJsonContent)\<close> and \<^verbatim>\<open>pkgJson.types || pkgJson.typings\<close>, which are the
  platform's: the text does not parse or has no properties to read (an exception), the
  entry is falsy, or the entry as the template string prints it.\<close>

datatype manifest = Unparsable | NoTypes | Types string

text \<open>The \<^verbatim>\<open>try\<close> block of \<open>loadPackageTypes\<close>.\<close>

definition loadManifestTypes ::
  "gitton_fs \<Rightarrow> (string \<Rightarrow> manifest) \<Rightarrow> string \<Rightarrow> session \<Rightarrow> session" where
  "loadManifestTypes fs parseManifest packagePath st =
     (case readFile fs (packagePath @ ''/package.json'') of
        Inl e \<Rightarrow> st
      | Inr pkgJsonContent \<Rightarrow>
          (case parseManifest pkgJsonContent of
             Unparsable \<Rightarrow> st
           | NoTypes \<Rightarrow> st
           | Types typesFile \<Rightarrow>
               (let typesPath = packagePath @ ''/'' @ typesFile
                in case exists fs typesPath of
                     Inl e \<Rightarrow> st
                   | Inr found \<Rightarrow>
                       if found then
                         (case readFile fs typesPath of
                            Inl e \<Rightarrow> st
                          | Inr content \<Rightarrow> addFileToMonaco typesPath content st)
                       else st)))"

definition loadPackageTypes ::
  "gitton_fs option \<Rightarrow> (string \<Rightarrow> manifest) \<Rightarrow> string \<Rightarrow> session \<Rightarrow> completion \<times> session" where
  "loadPackageTypes gitton parseManifest packageName st0 =
     (let st = st0\<lparr>packageLoads := packageLoads st0 @ [packageName]\<rparr>
      in case gitton of
           None \<Rightarrow> (Returned, st)
         | Some fs \<Rightarrow>
             (let typesPath = ''node_modules/@types/'' @ packageName
              in case exists fs typesPath of
                   Inl e \<Rightarrow> (Rejected e, st)
                 | Inr typesExists \<Rightarrow>
                     if typesExists then (Returned, loadDtsFromDir (Some fs) typesPath 3 0 st)
                     else
                       (let packagePath = ''node_modules/'' @ packageName
                        in case exists fs packagePath of
                             Inl e \<Rightarrow> (Rejected e, st)
                           | Inr packageExists \<Rightarrow>
                               if packageExists then
                                 (Returned,
                                  loadDtsFromDir (Some fs) packagePath 2 0
                                    (loadManifestTypes fs parseManifest packagePath st))
                               else (Returned, st))))"

text \<open>\<^verbatim>\<open>for (const pkg of ...) { await loadPackageTypes(pkg) }\<close>: a rejection ends the loop.\<close>

fun loadPackages ::
  "gitton_fs option \<Rightarrow> (string \<Rightarrow> manifest) \<Rightarrow> string list \<Rightarrow> session \<Rightarrow> completion \<times> session" where
  "loadPackages gitton parseManifest [] st = (Returned, st)"
| "loadPackages gitton parseManifest (pkg # pkgs) st =
     (case loadPackageTypes gitton parseManifest pkg st of
        (Returned, st') \<Rightarrow> loadPackages gitton parseManifest pkgs st'
      | (Rejected e, st') \<Rightarrow> (Rejected e, st'))"

definition priorityPackages :: "string list" where
  "priorityPackages =
     [''react'', ''react-dom'', ''node'', ''react-router-dom'', ''react-i18next'',
      ''lucide-react'', ''sonner'']"

text \<open>The directories of \<^verbatim>\<open>node_modules/@types\<close> that the second loop of
  \<open>loadAllNodeModulesTypes\<close> loads.\<close>

definition typesPackages :: "dirent list \<Rightarrow> string list" where
  "typesPackages entries =
     map name (filter (\<lambda>entry. isDirectory entry \<and> name entry \<notin> set priorityPackages) entries)"

text \<open>The second loop stands in a \<^verbatim>\<open>try\<close>: a rejection there is caught and logged.\<close>

definition loadAllNodeModulesTypes ::
  "gitton_fs option \<Rightarrow> (string \<Rightarrow> manifest) \<Rightarrow> session \<Rightarrow> completion \<times> session" where
  "loadAllNodeModulesTypes gitton parseManifest st =
     (case gitton of
        None \<Rightarrow> (Returned, st)
      | Some fs \<Rightarrow>
          (case loadPackages gitton parseManifest priorityPackages st of
             (Rejected e, st') \<Rightarrow> (Rejected e, st')
           | (Returned, st') \<Rightarrow>
               (Returned,
                case exists fs ''node_modules/@types'' of
                  Inl e \<Rightarrow> st'
                | Inr found \<Rightarrow>
                    if found then
                      (case readdir fs ''node_modules/@types'' of
                         Inl e \<Rightarrow> st'
                       | Inr entries \<Rightarrow>
                           snd (loadPackages gitton parseManifest (typesPackages entries) st'))
                    else st')))"

section \<open>Session start\<close>

definition entryPoints :: "string list" where
  "entryPoints =
     [''src/index.ts'', ''src/index.tsx'', ''src/main.ts'', ''src/main.tsx'', ''src/App.tsx'']"

definition loadProjectSources :: "gitton_fs option \<Rightarrow> tsconfig \<Rightarrow> session \<Rightarrow> session" where
  "loadProjectSources gitton cfg st =
     (case gitton of
        None \<Rightarrow> st
      | Some fs \<Rightarrow>
          loadDtsFromDir gitton ''src'' 5 0
            (foldl (\<lambda>s entry. loadSourceFile gitton cfg entry 0 s) st entryPoints))"

text \<open>\<open>initTypeSystem\<close> after \<^verbatim>\<open>loadTsConfig\<close> has left \<open>cfg\<close> in the module's variables.\<close>

definition initTypeSystem ::
  "gitton_fs option \<Rightarrow> (string \<Rightarrow> manifest) \<Rightarrow> tsconfig \<Rightarrow> session \<Rightarrow> completion \<times> session" where
  "initTypeSystem gitton parseManifest cfg st =
     (case loadAllNodeModulesTypes gitton parseManifest st of
        (Rejected e, st') \<Rightarrow> (Rejected e, st')
      | (Returned, st') \<Rightarrow> (Returned, loadProjectSources gitton cfg st'))"

section \<open>Notions for the statements\<close>

text \<open>What a round of the extension loop needs of a candidate to stop at it.\<close>

definition readable :: "gitton_fs \<Rightarrow> string \<Rightarrow> string \<Rightarrow> bool" where
  "readable fs p c = (exists fs p = Inr True \<and> readFile fs p = Inr c)"

text \<open>The first candidate of a stem that exists and can be read, with its contents.\<close>

fun probe :: "gitton_fs \<Rightarrow> string \<Rightarrow> string list \<Rightarrow> (string \<times> string) option" where
  "probe fs filePath [] = None"
| "probe fs filePath (ext # exts) =
     (if exists fs (filePath @ ext) = Inr True then
        (case readFile fs (filePath @ ext) of
           Inl e \<Rightarrow> probe fs filePath exts
         | Inr content \<Rightarrow> Some (filePath @ ext, content))
      else probe fs filePath exts)"

text \<open>The paths that the \<^verbatim>\<open>while\<close> loop recurses into, in order.\<close>

definition importTargets :: "tsconfig \<Rightarrow> string \<Rightarrow> string list \<Rightarrow> string list" where
  "importTargets cfg fullPath specs = List.map_filter (resolveImport cfg fullPath) specs"

text \<open>Sessions that differ by registrations of files satisfying \<open>ok\<close>.\<close>

inductive regs :: "(string \<Rightarrow> string \<Rightarrow> bool) \<Rightarrow> session \<Rightarrow> session \<Rightarrow> bool"
  for ok :: "string \<Rightarrow> string \<Rightarrow> bool"
where
  regs_refl: "regs ok st st"
| regs_step: "regs ok st st' \<Longrightarrow> ok p c \<Longrightarrow> regs ok st (addFileToMonaco p c st')"




text \<open>A declaration file that the crawler registers when it comes to it: it can be read and
  has fewer than 500 * 1024 code units.\<close>

definition registrable :: "gitton_fs \<Rightarrow> string \<Rightarrow> bool" where
  "registrable fs p = (case readFile fs p of Inl e \<Rightarrow> False | Inr c \<Rightarrow> length c < 500 * 1024)"

text \<open>The directories under \<^verbatim>\<open>node_modules/@types\<close> that the bulk load can come to.\<close>

definition typesDirectoryPackages :: "gitton_fs option \<Rightarrow> string set" where
  "typesDirectoryPackages gitton =
     (case gitton of
        None \<Rightarrow> {}
      | Some fs \<Rightarrow>
          (case readdir fs ''node_modules/@types'' of
             Inl e \<Rightarrow> {}
           | Inr entries \<Rightarrow> set (typesPackages entries)))"

text \<open>A chain of files, each given as the stem it is asked for, the file found for the stem
  and the contents of the file: each file but the last has one import that the loader
  follows, the stem of the next.\<close>

fun importChain :: "gitton_fs \<Rightarrow> tsconfig \<Rightarrow> (string \<times> string \<times> string) list \<Rightarrow> bool" where
  "importChain fs cfg [] = True"
| "importChain fs cfg [(s, f, c)] = (probe fs s extensions = Some (f, c))"
| "importChain fs cfg ((s, f, c) # nxt # chain) =
     (probe fs s extensions = Some (f, c) \<and>
      importTargets cfg f (importSpecifiers c) = [fst nxt] \<and>
      importChain fs cfg (nxt # chain))"

definition chainFiles :: "(string \<times> string \<times> string) list \<Rightarrow> string list" where
  "chainFiles chain = map (\<lambda>(s, f, c). f) chain"

definition chainStems :: "(string \<times> string \<times> string) list \<Rightarrow> string list" where
  "chainStems chain = map (\<lambda>(s, f, c). s) chain"

section \<open>Example projects\<close>

text \<open>A specifier between single quotes.\<close>

definition sq :: "string \<Rightarrow> string" where
  "sq s = CHR 0x27 # s @ [CHR 0x27]"

text \<open>A filesystem holding the given files and no directory listing.\<close>

definition fsOfFiles :: "(string \<times> string) list \<Rightarrow> gitton_fs" where
  "fsOfFiles files =
     \<lparr>readFile = (\<lambda>p. case map_of files p of None \<Rightarrow> Inl IOError | Some c \<Rightarrow> Inr c),
      readdir = (\<lambda>p. Inl IOError),
      exists = (\<lambda>p. Inr (map_of files p \<noteq> None))\<rparr>"

definition noAliases :: tsconfig where
  "noAliases = \<lparr>tsconfigPaths = [], tsconfigBaseUrl = ''.''\<rparr>"

text \<open>Two files that import each other by relative specifiers without extension.\<close>

definition cycleA :: string where
  "cycleA = ''import { b } from '' @ sq ''./B''"

definition cycleB :: string where
  "cycleB = ''import { a } from '' @ sq ''./A''"

definition cycleFs :: gitton_fs where
  "cycleFs = fsOfFiles [(''src/A.ts'', cycleA), (''src/B.ts'', cycleB)]"

text \<open>The same two files behind a chain of five: the entry point \<^verbatim>\<open>src/index.ts\<close> is loaded
  at depth 0, \<^verbatim>\<open>src/A.ts\<close> is reached at depth 5 and \<^verbatim>\<open>src/B.ts\<close> at depth 6.\<close>

definition deepCycleFs :: gitton_fs where
  "deepCycleFs =
     fsOfFiles
       [(''src/index.ts'', ''import { f1 } from '' @ sq ''./f1''),
        (''src/f1.ts'', ''import { f2 } from '' @ sq ''./f2''),
        (''src/f2.ts'', ''import { f3 } from '' @ sq ''./f3''),
        (''src/f3.ts'', ''import { f4 } from '' @ sq ''./f4''),
        (''src/f4.ts'', ''import { a } from '' @ sq ''./A''),
        (''src/A.ts'', cycleA), (''src/B.ts'', cycleB)]"

text \<open>The same two files in the project root, reached from the entry point
  \<^verbatim>\<open>src/index.ts\<close>.\<close>

definition rootCycleFs :: gitton_fs where
  "rootCycleFs =
     fsOfFiles
       [(''src/index.ts'', ''import { a } from '' @ sq ''../A''),
        (''A.ts'', cycleA), (''B.ts'', cycleB)]"

text \<open>A file that exists and cannot be read, beside its \<^verbatim>\<open>.tsx\<close> sibling.\<close>

definition unreadableTsFs :: gitton_fs where
  "unreadableTsFs =
     \<lparr>readFile = (\<lambda>p. if p = ''src/a.tsx'' then Inr ''export const a = 1'' else Inl IOError),
      readdir = (\<lambda>p. Inl IOError),
      exists = (\<lambda>p. Inr (p = ''src/a.ts'' \<or> p = ''src/a.tsx''))\<rparr>"

text \<open>Seven files in a chain: the entry point \<^verbatim>\<open>src/f0.ts\<close> imports \<^verbatim>\<open>./f1\<close>, and so on to
  \<^verbatim>\<open>src/f6.ts\<close>, which imports nothing.\<close>

definition chain7 :: "(string \<times> string \<times> string) list" where
  "chain7 =
     [(''src/f0.ts'', ''src/f0.ts'', ''import { f1 } from '' @ sq ''./f1''),
      (''src/f1'', ''src/f1.ts'', ''import { f2 } from '' @ sq ''./f2''),
      (''src/f2'', ''src/f2.ts'', ''import { f3 } from '' @ sq ''./f3''),
      (''src/f3'', ''src/f3.ts'', ''import { f4 } from '' @ sq ''./f4''),
      (''src/f4'', ''src/f4.ts'', ''import { f5 } from '' @ sq ''./f5''),
      (''src/f5'', ''src/f5.ts'', ''import { f6 } from '' @ sq ''./f6''),
      (''src/f6'', ''src/f6.ts'', ''export const f6 = 6'')]"

definition chainFs :: gitton_fs where
  "chainFs = fsOfFiles (map (\<lambda>(s, f, c). (f, c)) chain7)"

text \<open>An alias table whose first pattern has no target, and one whose pattern has two.\<close>

definition emptyTargetAliases :: tsconfig where
  "emptyTargetAliases =
     \<lparr>tsconfigPaths = [(''@/*'', []), (''@/lib/*'', [''packages/lib/*''])],
      tsconfigBaseUrl = ''.''\<rparr>"

definition twoTargetAliases :: tsconfig where
  "twoTargetAliases =
     \<lparr>tsconfigPaths = [(''@/*'', [''src/*'', ''lib/*''])], tsconfigBaseUrl = ''.''\<rparr>"

definition libOnlyFs :: gitton_fs where
  "libOnlyFs = fsOfFiles [(''lib/x.ts'', ''export const x = 1'')]"

text \<open>The choice among the targets as the specification words it: the path computed from
  the first template whose substituted, base-path-joined path exists on the filesystem.\<close>

definition specFirstExistingTarget ::
  "gitton_fs \<Rightarrow> string \<Rightarrow> string list \<Rightarrow> string \<Rightarrow> string option" where
  "specFirstExistingTarget fs baseUrl targets captured =
     List.find (\<lambda>p. exists fs p = Inr True) (map (\<lambda>t. aliasTarget baseUrl t captured) targets)"

text \<open>A directory with a declaration file one unit below the size threshold, one at the
  threshold, a hidden one, a heavy directory and a file of another kind.\<close>

definition typesDirFs :: gitton_fs where
  "typesDirFs =
     \<lparr>readFile = (\<lambda>p. if p = ''types/small.d.ts'' then Inr (replicate (500 * 1024 - 1) CHR ''x'')
                      else if p = ''types/big.d.ts'' then Inr (replicate (500 * 1024) CHR ''x'')
                      else if p = ''types/.hidden.d.ts'' then Inr ''export {}''
                      else Inl IOError),
      readdir = (\<lambda>p. if p = ''types'' then
                        Inr [\<lparr>name = ''small.d.ts'', isDirectory = False\<rparr>,
                             \<lparr>name = ''big.d.ts'', isDirectory = False\<rparr>,
                             \<lparr>name = ''.hidden.d.ts'', isDirectory = False\<rparr>,
                             \<lparr>name = ''docs'', isDirectory = True\<rparr>,
                             \<lparr>name = ''index.js'', isDirectory = False\<rparr>]
                      else Inl IOError),
      exists = (\<lambda>p. Inr (p = ''types''))\<rparr>"

text \<open>A project whose entry point imports the package \<^verbatim>\<open>lodash\<close>, installed with its own
  declaration file, which its manifest names, and without an \<^verbatim>\<open>@types\<close> directory.\<close>

definition dq :: "string \<Rightarrow> string" where
  "dq s = CHR 0x22 # s @ [CHR 0x22]"

definition lodashPackageJson :: string where
  "lodashPackageJson = ''{ '' @ dq ''types'' @ '': '' @ dq ''index.d.ts'' @ '' }''"

definition lodashFs :: gitton_fs where
  "lodashFs =
     \<lparr>readFile = (\<lambda>p. if p = ''src/index.ts'' then Inr (''import _ from '' @ sq ''lodash'')
                      else if p = ''node_modules/lodash/package.json'' then Inr lodashPackageJson
                      else if p = ''node_modules/lodash/index.d.ts'' then Inr ''export {}''
                      else Inl IOError),
      readdir = (\<lambda>p. Inl IOError),
      exists = (\<lambda>p. Inr (p = ''src/index.ts'' \<or> p = ''node_modules/lodash'' \<or>
                          p = ''node_modules/lodash/package.json'' \<or>
                          p = ''node_modules/lodash/index.d.ts''))\<rparr>"

text \<open>What \<^verbatim>\<open>JSON.parse\<close> and the lookup of the types entry give for the manifests of this
  project.\<close>

definition lodashManifest :: "string \<Rightarrow> manifest" where
  "lodashManifest text = (if text = lodashPackageJson then Types ''index.d.ts'' else Unparsable)"

section \<open>Properties of strings and of normalisation\<close>



lemma splitOn_append_sep:
  "c \<notin> set seg \<Longrightarrow> splitOn c (seg @ c # rest) = seg # splitOn c rest"
  by (induction seg) auto

lemma splitOn_no_sep_id: "c \<notin> set seg \<Longrightarrow> splitOn c seg = [seg]"
  by (induction seg) auto

lemma splitOn_joinWith:
  "xs \<noteq> [] \<Longrightarrow> (\<And>seg. seg \<in> set xs \<Longrightarrow> c \<notin> set seg) \<Longrightarrow>
   splitOn c (joinWith [c] xs) = xs"
proof (induction "[c]" xs rule: joinWith.induct)
  case 1
  then show ?case by simp
next
  case (2 x)
  then show ?case by (simp add: splitOn_no_sep_id)
next
  case (3 x y ys)
  have "c \<notin> set x" using 3 by simp
  moreover have "splitOn c (joinWith [c] (y # ys)) = y # ys"
    using 3 by simp
  ultimately show ?case
    using splitOn_append_sep [of c x "joinWith [c] (y # ys)"] by simp
qed






text \<open>Removing \<^verbatim>\<open>/./\<close> before normalising changes nothing: normalisation drops the segment
  anyway.\<close>

lemma normalize_replace_segments:
  "CHR ''/'' \<notin> set p \<Longrightarrow>
   foldl normalizeStep acc (splitOn CHR ''/'' (p @ replaceSlashDotSlash s)) =
   foldl normalizeStep acc (splitOn CHR ''/'' (p @ s))"
proof (induction s arbitrary: p acc rule: replaceSlashDotSlash.induct)
  case (1 a b c r)
  show ?case
  proof (cases "a = CHR ''/'' \<and> b = CHR ''.'' \<and> c = CHR ''/''")
    case True
    have l: "splitOn CHR ''/'' (p @ CHR ''/'' # replaceSlashDotSlash r) =
        p # splitOn CHR ''/'' (replaceSlashDotSlash r)"
      using "1.prems" by (rule splitOn_append_sep)
    have r: "splitOn CHR ''/'' (p @ CHR ''/'' # ''./'' @ r) = p # ''.'' # splitOn CHR ''/'' r"
      using splitOn_append_sep [OF "1.prems", of "''./'' @ r"]
        splitOn_append_sep [of "CHR ''/''" "''.''" r] by simp
    have "foldl normalizeStep (normalizeStep acc p) (splitOn CHR ''/'' ([] @ replaceSlashDotSlash r)) =
        foldl normalizeStep (normalizeStep acc p) (splitOn CHR ''/'' ([] @ r))"
      using True by (intro "1.IH"(1)) simp_all
    moreover have "normalizeStep (normalizeStep acc p) ''.'' = normalizeStep acc p"
      by (simp add: normalizeStep_def)
    ultimately show ?thesis using True l r by simp
  next
    case False
    then have e1: "replaceSlashDotSlash (a # b # c # r) = a # replaceSlashDotSlash (b # c # r)"
      by (cases "a = CHR ''/''"; cases "b = CHR ''.''"; cases "c = CHR ''/''") simp_all
    show ?thesis
    proof (cases "a = CHR ''/''")
      case True
      have ih: "foldl normalizeStep (normalizeStep acc p)
            (splitOn CHR ''/'' ([] @ replaceSlashDotSlash (b # c # r))) =
          foldl normalizeStep (normalizeStep acc p) (splitOn CHR ''/'' ([] @ b # c # r))"
        using False by (intro "1.IH"(2)) simp_all
      have l: "splitOn CHR ''/'' (p @ CHR ''/'' # replaceSlashDotSlash (b # c # r)) =
          p # splitOn CHR ''/'' (replaceSlashDotSlash (b # c # r))"
        using "1.prems" by (rule splitOn_append_sep)
      have r: "splitOn CHR ''/'' (p @ CHR ''/'' # b # c # r) = p # splitOn CHR ''/'' (b # c # r)"
        using "1.prems" by (rule splitOn_append_sep)
      show ?thesis
        unfolding e1 [unfolded True] True l r foldl_Cons using ih unfolding append_Nil .
    next
      case na: False
      have "foldl normalizeStep acc
            (splitOn CHR ''/'' ((p @ [a]) @ replaceSlashDotSlash (b # c # r))) =
          foldl normalizeStep acc (splitOn CHR ''/'' ((p @ [a]) @ b # c # r))"
        using False na "1.prems" by (intro "1.IH"(2)) simp_all
      then show ?thesis unfolding e1 by simp
    qed
  qed
qed simp_all

lemma normalizePath_replace: "normalizePath (replaceSlashDotSlash s) = normalizePath s"
  using normalize_replace_segments [of "[]" "[]" s]
  by (simp add: normalizePath_def normalizeSegments_def)

lemma foldl_normalizeStep_plain:
  "(\<And>seg. seg \<in> set segs \<Longrightarrow> seg \<noteq> ''.'' \<and> seg \<noteq> ''..'') \<Longrightarrow>
   foldl normalizeStep acc segs = acc @ segs"
  by (induction segs arbitrary: acc) (simp_all add: normalizeStep_def)

lemma joinWith_snoc: "segs \<noteq> [] \<Longrightarrow> joinWith sep (segs @ [x]) = joinWith sep segs @ sep @ x"
  by (induction sep segs rule: joinWith.induct) simp_all

text \<open>From a file in a directory, \<^verbatim>\<open>./n\<close> resolves to the stem \<open>n\<close> in that directory.\<close>

lemma resolveImport_sibling:
  assumes ne: "segs \<noteq> []"
    and plain: "\<And>seg. seg \<in> set segs \<Longrightarrow> CHR ''/'' \<notin> set seg \<and> seg \<noteq> ''.'' \<and> seg \<noteq> ''..''"
    and fl: "CHR ''/'' \<notin> set file"
    and n: "CHR ''/'' \<notin> set n" "n \<noteq> ''.''" "n \<noteq> ''..''"
  shows "resolveImport cfg (joinWith ''/'' (segs @ [file])) (''./'' @ n) =
    Some (joinWith ''/'' (segs @ [n]))"
proof -
  have sp: "splitOn CHR ''/'' (joinWith ''/'' (segs @ [file])) = segs @ [file]"
    using plain fl by (intro splitOn_joinWith) auto
  have sp2: "splitOn CHR ''/'' (joinWith ''/'' (segs @ [''.'', n])) = segs @ [''.'', n]"
    using plain n by (intro splitOn_joinWith) auto
  have j: "joinWith ''/'' segs @ ''/'' @ ''./'' @ n = joinWith ''/'' (segs @ [''.'', n])"
    using joinWith_snoc [of "segs @ [''.'']" "''/''" n] joinWith_snoc [OF ne, of "''/''" "''.''"]
    by simp
  have "normalizeSegments (joinWith ''/'' (segs @ [''.'', n])) = segs @ [n]"
    unfolding normalizeSegments_def sp2
    using foldl_normalizeStep_plain [of segs "[]"] plain n by (simp add: normalizeStep_def)
  then have "normalizePath (replaceSlashDotSlash (joinWith ''/'' (segs @ [''.'', n]))) =
      joinWith ''/'' (segs @ [n])"
    unfolding normalizePath_replace by (simp add: normalizePath_def)
  then have "normalizePath (replaceSlashDotSlash (joinWith ''/'' segs @ ''/'' @ ''./'' @ n)) =
      joinWith ''/'' (segs @ [n])"
    unfolding j .
  then show ?thesis
    by (simp add: resolveImport_def startsWith_def sp)
qed

text \<open>From a file whose path has no directory part, the directory is the empty string and
  \<^verbatim>\<open>./n\<close> resolves to \<^verbatim>\<open>/n\<close>.\<close>

lemma resolveImport_root:
  assumes fl: "CHR ''/'' \<notin> set file"
    and n: "CHR ''/'' \<notin> set n" "n \<noteq> ''.''" "n \<noteq> ''..''"
  shows "resolveImport cfg file (''./'' @ n) = Some (''/'' @ n)"
proof -
  have sp: "splitOn CHR ''/'' file = [file]"
    using fl by (rule splitOn_no_sep_id)
  have "splitOn CHR ''/'' (''/./'' @ n) = [[], ''.'', n]"
    using splitOn_no_sep_id [OF n(1)] by simp
  then have "normalizePath (''/./'' @ n) = ''/'' @ n"
    using n by (simp add: normalizePath_def normalizeSegments_def normalizeStep_def)
  then show ?thesis
    using normalizePath_replace [of "''/./'' @ n"]
    by (simp add: resolveImport_def startsWith_def sp)
qed

section \<open>Properties of registration\<close>

lemma loadedFiles_addFile [simp]:
  "loadedFiles (addFileToMonaco p c st) = insert p (loadedFiles st)"
  by (auto simp: addFileToMonaco_def)

lemma packageLoads_addFile [simp]:
  "packageLoads (addFileToMonaco p c st) = packageLoads st"
  by (simp add: addFileToMonaco_def)

lemma addFile_again: "p \<in> loadedFiles st \<Longrightarrow> addFileToMonaco p c st = st"
  by (simp add: addFileToMonaco_def)

lemma inj_fileUri: "fileUri p = fileUri p' \<longleftrightarrow> p = p'"
  by (simp add: fileUri_def)

lemma fedOnce_empty: "fedOnce emptySession"
  by (simp add: fedOnce_def emptySession_def)

lemma fedOnce_addFile: "fedOnce st \<Longrightarrow> fedOnce (addFileToMonaco p c st)"
  by (auto simp: fedOnce_def addFileToMonaco_def inj_fileUri)

lemma count_list_distinct:
  "distinct xs \<Longrightarrow> count_list xs x = (if x \<in> set xs then 1 else 0)"
  by (induction xs) auto

lemma fedOnce_count:
  assumes "fedOnce st"
  shows "count_list (map snd (tsExtraLibs st)) (fileUri p) = (if p \<in> loadedFiles st then 1 else 0)"
    and "count_list (map snd (jsExtraLibs st)) (fileUri p) = (if p \<in> loadedFiles st then 1 else 0)"
proof -
  have d: "distinct (map snd (tsExtraLibs st))"
    and s: "set (map snd (tsExtraLibs st)) = fileUri ` loadedFiles st"
    and j: "jsExtraLibs st = tsExtraLibs st"
    using assms by (simp_all add: fedOnce_def)
  have "fileUri p \<in> fileUri ` loadedFiles st \<longleftrightarrow> p \<in> loadedFiles st"
    by (auto simp: inj_fileUri)
  then show "count_list (map snd (tsExtraLibs st)) (fileUri p) =
      (if p \<in> loadedFiles st then 1 else 0)"
    using count_list_distinct [OF d, of "fileUri p"] s by simp
  then show "count_list (map snd (jsExtraLibs st)) (fileUri p) =
      (if p \<in> loadedFiles st then 1 else 0)"
    using j by simp
qed

lemma fedOnce_foldl:
  "fedOnce st \<Longrightarrow> fedOnce (foldl (\<lambda>s (p, c). addFileToMonaco p c s) st calls)"
  by (induction calls arbitrary: st) (auto intro: fedOnce_addFile)

lemma fedOnce_registerAll: "fedOnce (registerAll calls)"
  unfolding registerAll_def by (rule fedOnce_foldl [OF fedOnce_empty])

lemma loadedFiles_foldl:
  "loadedFiles (foldl (\<lambda>s (p, c). addFileToMonaco p c s) st calls) =
     loadedFiles st \<union> fst ` set calls"
  by (induction calls arbitrary: st) auto

text \<open>
  C2. Registering a path a second time, with the same or with other contents, changes
  nothing. In every session (any history of register calls from the empty session) no uri
  is handed to the engine twice, and after \<open>register(p, c)\<close> and \<open>register(p, c')\<close> the uri
  of \<open>p\<close> has been handed to each of the two language defaults once.
\<close>

theorem addFileToMonaco_idempotent:
  "addFileToMonaco p c' (addFileToMonaco p c st) = addFileToMonaco p c st \<and>
   distinct (map snd (tsExtraLibs (registerAll calls))) \<and>
   distinct (map snd (jsExtraLibs (registerAll calls))) \<and>
   count_list (map snd (tsExtraLibs (registerAll (calls @ [(p, c), (p, c')])))) (fileUri p) = 1 \<and>
   count_list (map snd (jsExtraLibs (registerAll (calls @ [(p, c), (p, c')])))) (fileUri p) = 1 \<and>
   registerAll (calls @ [(p, c), (p, c')]) = registerAll (calls @ [(p, c)])"
proof -
  have idem: "addFileToMonaco p c' (addFileToMonaco p c st) = addFileToMonaco p c st" for st
    by (rule addFile_again) simp
  have fed: "fedOnce (registerAll calls)" for calls
    by (rule fedOnce_registerAll)
  have mem: "p \<in> loadedFiles (registerAll (calls @ [(p, c), (p, c')]))"
    by (simp add: registerAll_def)
  have same: "registerAll (calls @ [(p, c), (p, c')]) = registerAll (calls @ [(p, c)])"
    by (simp add: registerAll_def idem)
  show ?thesis
    using idem fed [of calls] fedOnce_count [OF fed [of "calls @ [(p, c), (p, c')]"], of p]
      mem same
    by (simp add: fedOnce_def)
qed

section \<open>Properties of the source loader\<close>

lemma regs_trans: "regs ok st' st'' \<Longrightarrow> regs ok st st' \<Longrightarrow> regs ok st st''"
  by (induction rule: regs.induct) (auto intro: regs.intros)

lemma regs_add: "ok p c \<Longrightarrow> regs ok st (addFileToMonaco p c st)"
  by (rule regs_step [OF regs_refl])

lemma regs_mono: "regs ok st st' \<Longrightarrow> loadedFiles st \<subseteq> loadedFiles st'"
  by (induction rule: regs.induct) auto

lemma regs_new:
  "regs ok st st' \<Longrightarrow> p \<in> loadedFiles st' \<Longrightarrow> p \<notin> loadedFiles st \<Longrightarrow> \<exists>c. ok p c"
  by (induction rule: regs.induct) auto

lemma regs_fedOnce: "regs ok st st' \<Longrightarrow> fedOnce st \<Longrightarrow> fedOnce st'"
  by (induction rule: regs.induct) (auto intro: fedOnce_addFile)

lemma regs_packageLoads: "regs ok st st' \<Longrightarrow> packageLoads st' = packageLoads st"
  by (induction rule: regs.induct) auto

lemma tryExtensions_probe:
  "tryExtensions fs cfg filePath depth exts st =
     (case probe fs filePath exts of
        None \<Rightarrow> st
      | Some (fullPath, content) \<Rightarrow>
          loadImports fs cfg fullPath depth (importSpecifiers content)
            (addFileToMonaco fullPath content st))"
proof (induction exts)
  case Nil
  then show ?case by simp
next
  case (Cons ext exts)
  show ?case
  proof (cases "exists fs (filePath @ ext)")
    case (Inl e)
    then show ?thesis using Cons by simp
  next
    case (Inr found)
    then show ?thesis
      using Cons by (cases found; cases "readFile fs (filePath @ ext)") (simp_all add: Let_def)
  qed
qed

lemma probe_readable: "probe fs filePath exts = Some (fullPath, content) \<Longrightarrow> readable fs fullPath content"
  by (induction exts) (auto simp: readable_def split: if_splits sum.splits)

lemma probe_self: "readable fs p c \<Longrightarrow> probe fs p extensions = Some (p, c)"
  by (simp add: extensions_def readable_def)

lemma loadImports_foldl:
  "loadImports fs cfg fullPath depth specs st =
     foldl (\<lambda>s r. loadSourceFile (Some fs) cfg r (depth + 1) s) st (importTargets cfg fullPath specs)"
  by (induction specs arbitrary: st)
    (auto simp: importTargets_def List.map_filter_simps split: option.splits)

lemma loadSourceFile_too_deep: "5 < depth \<Longrightarrow> loadSourceFile gitton cfg filePath depth st = st"
  by (simp add: loadSourceFile.simps split: option.splits)

lemma loadSourceFile_loaded:
  "filePath \<in> loadedFiles st \<Longrightarrow> loadSourceFile gitton cfg filePath depth st = st"
  by (simp add: loadSourceFile.simps split: option.splits)

lemma loadSourceFile_probe:
  "depth \<le> 5 \<Longrightarrow> filePath \<notin> loadedFiles st \<Longrightarrow>
   loadSourceFile (Some fs) cfg filePath depth st =
     (case probe fs filePath extensions of
        None \<Rightarrow> st
      | Some (fullPath, content) \<Rightarrow>
          loadImports fs cfg fullPath depth (importSpecifiers content)
            (addFileToMonaco fullPath content st))"
  by (simp add: loadSourceFile.simps tryExtensions_probe)

lemma load_regs:
  shows "\<forall>fs0. gitton = Some fs0 \<longrightarrow>
      regs (readable fs0) st (loadSourceFile gitton cfg filePath depth st)"
    and "regs (readable fs) st1 (tryExtensions fs cfg1 filePath1 depth1 exts st1)"
    and "regs (readable fs) st2 (loadImports fs cfg2 fullPath depth2 specs st2)"
proof (induction gitton cfg filePath depth st and fs cfg1 filePath1 depth1 exts st1
    and fs cfg2 fullPath depth2 specs st2 rule: loadSourceFile_tryExtensions_loadImports.induct)
  case (1 gitton cfg filePath depth st)
  show ?case
  proof (intro allI impI)
    fix fs0
    assume g: "gitton = Some fs0"
    show "regs (readable fs0) st (loadSourceFile gitton cfg filePath depth st)"
    proof (cases "5 < depth \<or> filePath \<in> loadedFiles st")
      case True
      then show ?thesis
        by (auto simp: loadSourceFile_too_deep loadSourceFile_loaded intro: regs_refl)
    next
      case False
      then show ?thesis
        using 1 [of fs0] g by (simp add: loadSourceFile.simps)
    qed
  qed
next
  case (2 fs cfg filePath depth st)
  show ?case by (simp add: regs_refl)
next
  case (3 fs cfg filePath depth ext exts st)
  show ?case
  proof (cases "exists fs (filePath @ ext)")
    case (Inl e)
    then show ?thesis using 3(1) by simp
  next
    case (Inr found)
    show ?thesis
    proof (cases found)
      case False
      then show ?thesis using Inr 3(4) by simp
    next
      case True
      show ?thesis
      proof (cases "readFile fs (filePath @ ext)")
        case (Inl e)
        then show ?thesis using Inr True 3(2) by simp
      next
        case (Inr content)
        have ok: "readable fs (filePath @ ext) content"
          using Inr True \<open>exists fs (filePath @ ext) = Inr found\<close> by (simp add: readable_def)
        have "regs (readable fs) (addFileToMonaco (filePath @ ext) content st)
            (loadImports fs cfg (filePath @ ext) depth (importSpecifiers content)
              (addFileToMonaco (filePath @ ext) content st))"
          using 3(3) [OF refl \<open>exists fs (filePath @ ext) = Inr found\<close> True Inr] .
        then have "regs (readable fs) st
            (loadImports fs cfg (filePath @ ext) depth (importSpecifiers content)
              (addFileToMonaco (filePath @ ext) content st))"
          using regs_add [of "readable fs" "filePath @ ext" content st] ok
          by (blast intro: regs_trans)
        then show ?thesis
          using Inr True \<open>exists fs (filePath @ ext) = Inr found\<close> by (simp add: Let_def)
      qed
    qed
  qed
next
  case (4 fs cfg fullPath depth st)
  show ?case by (simp add: regs_refl)
next
  case (5 fs cfg fullPath depth importPath specs st)
  show ?case
  proof (cases "resolveImport cfg fullPath importPath")
    case None
    then show ?thesis using 5(1) by simp
  next
    case (Some resolvedPath)
    have a: "regs (readable fs) st (loadSourceFile (Some fs) cfg resolvedPath (depth + 1) st)"
      using 5(2) [OF Some] by simp
    have b: "regs (readable fs) (loadSourceFile (Some fs) cfg resolvedPath (depth + 1) st)
        (loadImports fs cfg fullPath depth specs
          (loadSourceFile (Some fs) cfg resolvedPath (depth + 1) st))"
      using 5(3) [OF Some] .
    show ?thesis using regs_trans [OF b a] Some by simp
  qed
qed

lemma loadSourceFile_regs:
  "regs (readable fs) st (loadSourceFile (Some fs) cfg filePath depth st)"
  using load_regs(1) [of "Some fs"] by simp

lemma foldl_load_regs:
  "regs (readable fs) st (foldl (\<lambda>s r. loadSourceFile (Some fs) cfg r depth s) st targets)"
proof (induction targets arbitrary: st)
  case Nil
  show ?case by (simp add: regs_refl)
next
  case (Cons r targets)
  show ?case
    using regs_trans [OF Cons [of "loadSourceFile (Some fs) cfg r depth st"] loadSourceFile_regs]
    by simp
qed

lemma foldl_load_too_deep:
  "5 < depth \<Longrightarrow> foldl (\<lambda>s r. loadSourceFile gitton cfg r depth s) st targets = st"
  by (induction targets) (simp_all add: loadSourceFile_too_deep)

lemma loadSourceFile_registers_probe:
  assumes d: "depth \<le> 5"
    and p: "probe fs b extensions = Some (B, cB)"
    and old: "b \<in> loadedFiles st \<Longrightarrow> B \<in> loadedFiles st"
  shows "B \<in> loadedFiles (loadSourceFile (Some fs) cfg b depth st)"
proof (cases "b \<in> loadedFiles st")
  case True
  then show ?thesis using old by (simp add: loadSourceFile_loaded)
next
  case False
  have "regs (readable fs) (addFileToMonaco B cB st)
      (loadImports fs cfg B depth (importSpecifiers cB) (addFileToMonaco B cB st))"
    by (rule load_regs(3))
  then have "B \<in> loadedFiles (loadImports fs cfg B depth (importSpecifiers cB)
      (addFileToMonaco B cB st))"
    using regs_mono by fastforce
  then show ?thesis using False d p by (simp add: loadSourceFile_probe)
qed

lemma foldl_load_registers:
  assumes d: "depth \<le> 5"
    and p: "probe fs b extensions = Some (B, cB)"
    and old: "b \<in> loadedFiles st0 \<Longrightarrow> B \<in> loadedFiles st0"
  shows "b \<in> set targets \<Longrightarrow> regs (readable fs) st0 st \<Longrightarrow>
    B \<in> loadedFiles (foldl (\<lambda>s r. loadSourceFile (Some fs) cfg r depth s) st targets)"
proof (induction targets arbitrary: st)
  case Nil
  then show ?case by simp
next
  case (Cons r targets)
  let ?st' = "loadSourceFile (Some fs) cfg r depth st"
  have r': "regs (readable fs) st0 ?st'"
    using regs_trans [OF loadSourceFile_regs Cons.prems(2)] .
  show ?case
  proof (cases "r = b")
    case True
    have "B \<in> loadedFiles st" if bin: "b \<in> loadedFiles st"
    proof (cases "b \<in> loadedFiles st0")
      case True
      then show ?thesis using old regs_mono [OF Cons.prems(2)] by auto
    next
      case False
      then obtain c where "readable fs b c"
        using regs_new [OF Cons.prems(2) bin] by auto
      then have "B = b" using probe_self [of fs b c] p by simp
      then show ?thesis using bin by simp
    qed
    then have "B \<in> loadedFiles ?st'"
      using True loadSourceFile_registers_probe [OF d p, of st cfg] by auto
    moreover have "loadedFiles ?st' \<subseteq>
        loadedFiles (foldl (\<lambda>s r. loadSourceFile (Some fs) cfg r depth s) ?st' targets)"
      by (rule regs_mono [OF foldl_load_regs])
    ultimately show ?thesis by auto
  next
    case False
    then have "b \<in> set targets" using Cons.prems(1) by simp
    then show ?thesis using Cons.IH [OF _ r'] by simp
  qed
qed

lemma cycle_registered:
  assumes d: "d \<le> 4"
    and a_new: "a \<notin> loadedFiles st"
    and b_old: "b \<in> loadedFiles st \<Longrightarrow> B \<in> loadedFiles st"
    and A: "probe fs a extensions = Some (A, cA)"
    and B: "probe fs b extensions = Some (B, cB)"
    and AB: "b \<in> set (importTargets cfg A (importSpecifiers cA))"
  shows "A \<in> loadedFiles (loadSourceFile (Some fs) cfg a d st) \<and>
         B \<in> loadedFiles (loadSourceFile (Some fs) cfg a d st)"
proof -
  let ?st1 = "addFileToMonaco A cA st"
  let ?step = "\<lambda>s r. loadSourceFile (Some fs) cfg r (d + 1) s"
  let ?targets = "importTargets cfg A (importSpecifiers cA)"
  have eq: "loadSourceFile (Some fs) cfg a d st = foldl ?step ?st1 ?targets"
    using a_new A d by (simp add: loadSourceFile_probe loadImports_foldl)
  have "loadedFiles ?st1 \<subseteq> loadedFiles (foldl ?step ?st1 ?targets)"
    by (rule regs_mono [OF foldl_load_regs])
  then have inA: "A \<in> loadedFiles (foldl ?step ?st1 ?targets)" by auto
  have r1: "regs (readable fs) st ?st1"
    using probe_readable [OF A] by (rule regs_add)
  have inB: "B \<in> loadedFiles (foldl ?step ?st1 ?targets)"
    using d by (intro foldl_load_registers [OF _ B b_old AB r1]) simp_all
  show ?thesis using inA inB eq by simp
qed

lemma importTargets_member:
  "spec \<in> set specs \<Longrightarrow> resolveImport cfg fullPath spec = Some p \<Longrightarrow>
   p \<in> set (importTargets cfg fullPath specs)"
  by (force simp: importTargets_def List.map_filter_def)

text \<open>No call of the loader starts an endless sequence of recursive calls: every argument
  is in the accessible part of the relation between a call and the calls it makes.\<close>

lemma loadSourceFile_total: "loadSourceFile_tryExtensions_loadImports_dom x"
proof -
  have "All loadSourceFile_tryExtensions_loadImports_dom"
    by (rule "loadSourceFile_tryExtensions_loadImports.termination" [where R = "measures
        [\<lambda>x. case x of
                Inl (g, cfg, p, d, st) \<Rightarrow> 7 - d
              | Inr (Inl (fs, cfg, p, d, exts, st)) \<Rightarrow> 6 - d
              | Inr (Inr (fs, cfg, p, d, imps, st)) \<Rightarrow> 6 - d,
         \<lambda>x. case x of
                Inl (g, cfg, p, d, st) \<Rightarrow> 0
              | Inr (Inl (fs, cfg, p, d, exts, st)) \<Rightarrow> 2
              | Inr (Inr (fs, cfg, p, d, imps, st)) \<Rightarrow> 1,
         \<lambda>x. case x of
                Inl (g, cfg, p, d, st) \<Rightarrow> 0
              | Inr (Inl (fs, cfg, p, d, exts, st)) \<Rightarrow> length exts
              | Inr (Inr (fs, cfg, p, d, imps, st)) \<Rightarrow> length imps]"]) auto
  then show ?thesis by simp
qed

text \<open>
  C1 (as amended). Every load terminates, whatever the import graph: every call is in the
  accessible part of the call relation of \<open>loadSourceFile\<close> (a call at a depth above 5
  returns at once, every other call recurses at one more, and the two loops are finite).
  A load into a session that has fed the engines each of its paths once hands no uri to an
  engine twice. Where a file \<open>A\<close> is the file found for a stem \<open>a\<close> that is loaded at a depth
  of at most 4 and is not registered, \<open>A\<close> imports \<open>b\<close>, the file \<open>B\<close> is the one found for \<open>b\<close>
  and imports a stem \<open>a'\<close> that \<open>A\<close> is found for as well, and a registered \<open>b\<close> has its file
  registered, the load leaves the uri of each of \<open>A\<close> and \<open>B\<close> handed to each engine exactly
  once. The file found for a stem is the first candidate of the extension order that
  exists and can be read. Here a file imports a stem when
  the stem is the path that the loader resolves one of the specifiers to that it extracts
  from the text of the file; between files of a directory whose path has at least one
  segment, \<^verbatim>\<open>./n\<close> is resolved to the stem \<open>n\<close> of that directory.
\<close>

theorem cyclic_imports_registered_once:
  assumes fed: "fedOnce st"
    and d: "d \<le> 4"
    and a_new: "a \<notin> loadedFiles st"
    and b_old: "b \<in> loadedFiles st \<longrightarrow> B \<in> loadedFiles st"
    and A: "probe fs a extensions = Some (A, cA)"
    and B: "probe fs b extensions = Some (B, cB)"
    and AB: "b \<in> set (importTargets cfg A (importSpecifiers cA))"
    and A': "probe fs a' extensions = Some (A, cA)"
    and BA: "a' \<in> set (importTargets cfg B (importSpecifiers cB))"
  shows "loadSourceFile_tryExtensions_loadImports_dom x \<and>
         count_list (map snd (tsExtraLibs (loadSourceFile (Some fs) cfg a d st))) (fileUri A) = 1 \<and>
         count_list (map snd (tsExtraLibs (loadSourceFile (Some fs) cfg a d st))) (fileUri B) = 1 \<and>
         count_list (map snd (jsExtraLibs (loadSourceFile (Some fs) cfg a d st))) (fileUri A) = 1 \<and>
         count_list (map snd (jsExtraLibs (loadSourceFile (Some fs) cfg a d st))) (fileUri B) = 1 \<and>
         count_list (map snd (tsExtraLibs (loadSourceFile (Some fs) cfg q k st))) u \<le> 1 \<and>
         count_list (map snd (jsExtraLibs (loadSourceFile (Some fs) cfg q k st))) u \<le> 1 \<and>
         (segs \<noteq> [] \<and>
          (\<forall>seg \<in> set segs. CHR ''/'' \<notin> set seg \<and> seg \<noteq> ''.'' \<and> seg \<noteq> ''..'') \<and>
          CHR ''/'' \<notin> set file \<and> CHR ''/'' \<notin> set n \<and> n \<noteq> ''.'' \<and> n \<noteq> ''..'' \<and>
          ''./'' @ n \<in> set (importSpecifiers c) \<longrightarrow>
            joinWith ''/'' (segs @ [n]) \<in>
              set (importTargets cfg (joinWith ''/'' (segs @ [file])) (importSpecifiers c)))"
proof -
  let ?st' = "loadSourceFile (Some fs) cfg a d st"
  have fed': "fedOnce ?st'"
    using regs_fedOnce [OF loadSourceFile_regs fed] .
  have "A \<in> loadedFiles ?st' \<and> B \<in> loadedFiles ?st'"
    using b_old by (intro cycle_registered [OF d a_new _ A B AB]) simp
  then have once: "count_list (map snd (tsExtraLibs ?st')) (fileUri A) = 1 \<and>
      count_list (map snd (tsExtraLibs ?st')) (fileUri B) = 1 \<and>
      count_list (map snd (jsExtraLibs ?st')) (fileUri A) = 1 \<and>
      count_list (map snd (jsExtraLibs ?st')) (fileUri B) = 1"
    using fedOnce_count [OF fed', of A] fedOnce_count [OF fed', of B] by simp
  have "fedOnce (loadSourceFile (Some fs) cfg q k st)"
    using regs_fedOnce [OF loadSourceFile_regs fed] .
  then have "distinct (map snd (tsExtraLibs (loadSourceFile (Some fs) cfg q k st)))"
    and "distinct (map snd (jsExtraLibs (loadSourceFile (Some fs) cfg q k st)))"
    by (simp_all add: fedOnce_def)
  then have most: "count_list (map snd (tsExtraLibs (loadSourceFile (Some fs) cfg q k st))) u \<le> 1 \<and>
      count_list (map snd (jsExtraLibs (loadSourceFile (Some fs) cfg q k st))) u \<le> 1"
    by (simp add: count_list_distinct)
  have sib: "segs \<noteq> [] \<and>
      (\<forall>seg \<in> set segs. CHR ''/'' \<notin> set seg \<and> seg \<noteq> ''.'' \<and> seg \<noteq> ''..'') \<and>
      CHR ''/'' \<notin> set file \<and> CHR ''/'' \<notin> set n \<and> n \<noteq> ''.'' \<and> n \<noteq> ''..'' \<and>
      ''./'' @ n \<in> set (importSpecifiers c) \<longrightarrow>
        joinWith ''/'' (segs @ [n]) \<in>
          set (importTargets cfg (joinWith ''/'' (segs @ [file])) (importSpecifiers c))"
  proof (rule impI)
    assume h: "segs \<noteq> [] \<and>
      (\<forall>seg \<in> set segs. CHR ''/'' \<notin> set seg \<and> seg \<noteq> ''.'' \<and> seg \<noteq> ''..'') \<and>
      CHR ''/'' \<notin> set file \<and> CHR ''/'' \<notin> set n \<and> n \<noteq> ''.'' \<and> n \<noteq> ''..'' \<and>
      ''./'' @ n \<in> set (importSpecifiers c)"
    then have plain: "\<And>seg. seg \<in> set segs \<Longrightarrow>
        CHR ''/'' \<notin> set seg \<and> seg \<noteq> ''.'' \<and> seg \<noteq> ''..''"
      by simp
    have "resolveImport cfg (joinWith ''/'' (segs @ [file])) (''./'' @ n) =
        Some (joinWith ''/'' (segs @ [n]))"
      using h by (intro resolveImport_sibling plain) simp_all
    moreover have "''./'' @ n \<in> set (importSpecifiers c)" using h by simp
    ultimately show "joinWith ''/'' (segs @ [n]) \<in>
        set (importTargets cfg (joinWith ''/'' (segs @ [file])) (importSpecifiers c))"
      by (rule importTargets_member [rotated])
  qed
  have dom: "loadSourceFile_tryExtensions_loadImports_dom x"
    by (rule loadSourceFile_total)
  show ?thesis
    using dom once most sib by (elim conjE) (intro conjI; assumption)
qed

text \<open>
  C9. A candidate whose \<^verbatim>\<open>exists\<close> rejects, or that exists and whose \<^verbatim>\<open>readFile\<close> rejects, is
  passed over: the loop goes on with the extensions after it, the session unchanged. So
  where \<open>p\<close> itself is not there, \<open>p.ts\<close> exists and cannot be read and \<open>p.tsx\<close> exists and can,
  a load of \<open>p\<close> reads and registers \<open>p.tsx\<close> and goes on with its imports.
\<close>

theorem probing_continues_after_failure:
  "(exists fs (filePath @ ext) = Inl e \<or>
    exists fs (filePath @ ext) = Inr True \<and> readFile fs (filePath @ ext) = Inl e \<longrightarrow>
      tryExtensions fs cfg filePath depth (ext # exts) st =
      tryExtensions fs cfg filePath depth exts st) \<and>
   (exists fs p = Inr False \<and>
    exists fs (p @ ''.ts'') = Inr True \<and> readFile fs (p @ ''.ts'') = Inl e \<and>
    exists fs (p @ ''.tsx'') = Inr True \<and> readFile fs (p @ ''.tsx'') = Inr content \<and>
    d \<le> 5 \<and> p \<notin> loadedFiles st \<longrightarrow>
      loadSourceFile (Some fs) cfg p d st =
        loadImports fs cfg (p @ ''.tsx'') d (importSpecifiers content)
          (addFileToMonaco (p @ ''.tsx'') content st) \<and>
      p @ ''.tsx'' \<in> loadedFiles (loadSourceFile (Some fs) cfg p d st))"
proof (intro conjI impI)
  assume "exists fs (filePath @ ext) = Inl e \<or>
    exists fs (filePath @ ext) = Inr True \<and> readFile fs (filePath @ ext) = Inl e"
  then show "tryExtensions fs cfg filePath depth (ext # exts) st =
      tryExtensions fs cfg filePath depth exts st"
    by (auto simp: Let_def)
next
  assume h: "exists fs p = Inr False \<and>
    exists fs (p @ ''.ts'') = Inr True \<and> readFile fs (p @ ''.ts'') = Inl e \<and>
    exists fs (p @ ''.tsx'') = Inr True \<and> readFile fs (p @ ''.tsx'') = Inr content \<and>
    d \<le> 5 \<and> p \<notin> loadedFiles st"
  then have pr: "probe fs p extensions = Some (p @ ''.tsx'', content)"
    by (simp add: extensions_def)
  show eq: "loadSourceFile (Some fs) cfg p d st =
      loadImports fs cfg (p @ ''.tsx'') d (importSpecifiers content)
        (addFileToMonaco (p @ ''.tsx'') content st)"
    using h pr by (simp add: loadSourceFile_probe)
  have "regs (readable fs) (addFileToMonaco (p @ ''.tsx'') content st)
      (loadImports fs cfg (p @ ''.tsx'') d (importSpecifiers content)
        (addFileToMonaco (p @ ''.tsx'') content st))"
    by (rule load_regs(3))
  then show "p @ ''.tsx'' \<in> loadedFiles (loadSourceFile (Some fs) cfg p d st)"
    unfolding eq using regs_mono by fastforce
qed

section \<open>Properties of the specifier extraction\<close>























section \<open>Properties of alias resolution\<close>

lemma resolveEntries_skip:
  "\<forall>(a, ts) \<in> set earlier. aliasMatch a importPath = None \<or> ts = [] \<Longrightarrow>
   resolveEntries baseUrl (earlier @ entries) importPath =
   resolveEntries baseUrl entries importPath"
proof (induction earlier)
  case Nil
  then show ?case by simp
next
  case (Cons e earlier)
  obtain a ts where e: "e = (a, ts)" by (cases e)
  have "aliasMatch a importPath = None \<or> ts = []" using Cons.prems e by simp
  then have "resolveEntries baseUrl ((a, ts) # earlier @ entries) importPath =
      resolveEntries baseUrl (earlier @ entries) importPath"
    by (cases "aliasMatch a importPath") auto
  then show ?case using Cons e by simp
qed

lemma resolveEntries_hit:
  "aliasMatch alias importPath = Some captured \<Longrightarrow>
   resolveEntries baseUrl ((alias, target # targets) # entries) importPath =
   Some (aliasTarget baseUrl target captured)"
  by simp

text \<open>
  C6 (as amended). The patterns are tried in table order, and the first pattern that matches
  the specifier and has a target wins: the returned path is computed from that pattern's
  first target, the patterns after it are not consulted, and no filesystem is asked. A
  pattern that matches with an empty target list is passed over like one that does not
  match.
\<close>

theorem first_matching_alias_wins:
  assumes "\<forall>(a, ts) \<in> set earlier. aliasMatch a importPath = None \<or> ts = []"
    and "aliasMatch alias importPath = Some captured"
  shows "resolvePathAlias
           \<lparr>tsconfigPaths = earlier @ (alias, target # targets) # later,
            tsconfigBaseUrl = baseUrl\<rparr> importPath =
           Some (aliasTarget baseUrl target captured) \<and>
         resolvePathAlias
           \<lparr>tsconfigPaths = earlier @ (alias, target # targets) # later,
            tsconfigBaseUrl = baseUrl\<rparr> importPath =
         resolvePathAlias
           \<lparr>tsconfigPaths = [(alias, target # targets)], tsconfigBaseUrl = baseUrl\<rparr> importPath"
  using resolveEntries_skip [OF assms(1)] resolveEntries_hit [OF assms(2)]
  by (simp add: resolvePathAlias_def)

text \<open>
  C7 (as amended). Within the matched pattern the first target template wins whether or not
  its path exists: the resolver returns the path computed from the first template, the
  other templates are never used, and no filesystem is asked. So where no candidate of
  that path can be loaded, an import through the alias loads nothing.
\<close>

theorem first_target_wins:
  assumes "aliasMatch alias importPath = Some captured"
  shows "resolvePathAlias
           \<lparr>tsconfigPaths = (alias, target # targets) # later, tsconfigBaseUrl = baseUrl\<rparr>
           importPath =
           Some (stripDotSlash
             (if baseUrl \<noteq> [] then baseUrl @ ''/'' @ jsReplace target ''*'' captured
              else jsReplace target ''*'' captured)) \<and>
         resolvePathAlias
           \<lparr>tsconfigPaths = (alias, target # targets) # later, tsconfigBaseUrl = baseUrl\<rparr>
           importPath =
         resolvePathAlias
           \<lparr>tsconfigPaths = [(alias, [target])], tsconfigBaseUrl = baseUrl\<rparr> importPath \<and>
         (startsWith importPath ''@/'' \<and>
          probe fs (normalizePath (aliasTarget baseUrl target captured)) extensions = None \<longrightarrow>
            loadImports fs
              \<lparr>tsconfigPaths = (alias, target # targets) # later, tsconfigBaseUrl = baseUrl\<rparr>
              fullPath depth [importPath] st = st)"
proof -
  let ?cfg = "\<lparr>tsconfigPaths = (alias, target # targets) # later, tsconfigBaseUrl = baseUrl\<rparr>"
  let ?p = "aliasTarget baseUrl target captured"
  have r: "resolvePathAlias ?cfg importPath = Some ?p"
    using assms by (simp add: resolvePathAlias_def)
  have one: "resolvePathAlias \<lparr>tsconfigPaths = [(alias, [target])], tsconfigBaseUrl = baseUrl\<rparr>
      importPath = Some ?p"
    using assms by (simp add: resolvePathAlias_def)
  have load: "loadImports fs ?cfg fullPath depth [importPath] st = st"
    if a: "startsWith importPath ''@/''" and n: "probe fs (normalizePath ?p) extensions = None"
  proof -
    have "\<not> startsWith importPath ''.''"
      using a by (cases importPath) (auto simp: startsWith_def)
    then have ri: "resolveImport ?cfg fullPath importPath =
        (if ?p \<noteq> [] then Some (normalizePath ?p) else None)"
      using a r by (simp add: resolveImport_def)
    have "loadSourceFile (Some fs) ?cfg (normalizePath ?p) (depth + 1) st = st"
    proof (cases "5 < depth + 1 \<or> normalizePath ?p \<in> loadedFiles st")
      case True
      then show ?thesis
        using loadSourceFile_too_deep loadSourceFile_loaded by blast
    next
      case False
      then show ?thesis using n by (simp add: loadSourceFile_probe)
    qed
    then show ?thesis using ri by simp
  qed
  show ?thesis
    using r one load by (simp add: aliasTarget_def Let_def)
qed

section \<open>Properties of the declaration crawler\<close>

lemma registrable_iff:
  "registrable fs p \<longleftrightarrow> (\<exists>c. readFile fs p = Inr c \<and> length c < 500 * 1024)"
  by (cases "readFile fs p") (simp_all add: registrable_def)

lemma loadedFiles_loadDtsFile:
  "loadedFiles (loadDtsFile fs p st) = loadedFiles st \<union> (if registrable fs p then {p} else {})"
  by (cases "readFile fs p") (simp_all add: loadDtsFile_def registrable_def)

lemma loadDtsFile_regs:
  "regs (\<lambda>p c. readFile fs p = Inr c \<and> length c < 500 * 1024) st (loadDtsFile fs p st)"
  by (cases "readFile fs p") (auto simp: loadDtsFile_def intro: regs_refl regs_add)

lemma crawl_files:
  shows "\<forall>fs0. gitton = Some fs0 \<longrightarrow>
      loadedFiles (loadDtsFromDir gitton dirPath maxDepth currentDepth st) =
      loadedFiles st \<union> set (filter (registrable fs0) (declarationFiles fs0 dirPath maxDepth currentDepth))"
    and "loadedFiles (crawlEntries fs dirPath1 maxDepth1 currentDepth1 entries st1) =
      loadedFiles st1 \<union>
      set (filter (registrable fs) (declarationFilesOf fs dirPath1 maxDepth1 currentDepth1 entries))"
proof (induction gitton dirPath maxDepth currentDepth st
    and fs dirPath1 maxDepth1 currentDepth1 entries st1
    rule: loadDtsFromDir_crawlEntries.induct)
  case (1 gitton dirPath maxDepth currentDepth st)
  show ?case
  proof (intro allI impI)
    fix fs0
    assume g: "gitton = Some fs0"
    show "loadedFiles (loadDtsFromDir gitton dirPath maxDepth currentDepth st) =
      loadedFiles st \<union> set (filter (registrable fs0) (declarationFiles fs0 dirPath maxDepth currentDepth))"
    proof (cases "maxDepth < currentDepth")
      case True
      then show ?thesis
        using g by (simp add: loadDtsFromDir.simps declarationFiles.simps)
    next
      case False
      show ?thesis
      proof (cases "readdir fs0 dirPath")
        case (Inl e)
        then show ?thesis
          using g False by (simp add: loadDtsFromDir.simps declarationFiles.simps)
      next
        case (Inr es)
        then show ?thesis
          using g False 1 [OF g False Inr]
          by (simp add: loadDtsFromDir.simps declarationFiles.simps)
      qed
    qed
  qed
next
  case (2 fs dirPath maxDepth currentDepth st)
  show ?case by simp
next
  case (3 fs dirPath maxDepth currentDepth entry entries st)
  show ?case
  proof (cases "startsWith (name entry) ''.''")
    case True
    then show ?thesis using 3(1) by simp
  next
    case hidden: False
    show ?thesis
    proof (cases "isDirectory entry")
      case True
      show ?thesis
      proof (cases "heavyDirectory (name entry)")
        case True
        then show ?thesis using hidden \<open>isDirectory entry\<close> 3(2) by simp
      next
        case False
        show ?thesis
          using hidden True False 3(3) [OF hidden True False] 3(4) [OF hidden True False]
          by auto
      qed
    next
      case False
      show ?thesis
      proof (cases "endsWith (name entry) ''.d.ts''")
        case True
        then show ?thesis
          using hidden False 3(5) [OF hidden False True]
          by (auto simp: loadedFiles_loadDtsFile)
      next
        case other: False
        then show ?thesis using hidden False 3(6) by simp
      qed
    qed
  qed
qed

lemma crawl_regs:
  shows "regs (\<lambda>p c. \<exists>fs0. gitton = Some fs0 \<and> readFile fs0 p = Inr c \<and> length c < 500 * 1024) st
      (loadDtsFromDir gitton dirPath maxDepth currentDepth st)"
    and "regs (\<lambda>p c. readFile fs p = Inr c \<and> length c < 500 * 1024) st1
      (crawlEntries fs dirPath1 maxDepth1 currentDepth1 entries st1)"
proof (induction gitton dirPath maxDepth currentDepth st
    and fs dirPath1 maxDepth1 currentDepth1 entries st1
    rule: loadDtsFromDir_crawlEntries.induct)
  case (1 gitton dirPath maxDepth currentDepth st)
  show ?case
  proof (cases gitton)
    case None
    then show ?thesis by (simp add: loadDtsFromDir.simps regs_refl)
  next
    case (Some fs0)
    show ?thesis
    proof (cases "maxDepth < currentDepth")
      case True
      then show ?thesis using Some by (simp add: loadDtsFromDir.simps regs_refl)
    next
      case False
      show ?thesis
      proof (cases "readdir fs0 dirPath")
        case (Inl e)
        then show ?thesis using Some False by (simp add: loadDtsFromDir.simps regs_refl)
      next
        case (Inr es)
        then show ?thesis
          using Some False 1 [OF Some False Inr] by (simp add: loadDtsFromDir.simps)
      qed
    qed
  qed
next
  case (2 fs dirPath maxDepth currentDepth st)
  show ?case by (simp add: regs_refl)
next
  case (3 fs dirPath maxDepth currentDepth entry entries st)
  let ?ok = "\<lambda>p c. readFile fs p = Inr c \<and> length c < 500 * 1024"
  show ?case
  proof (cases "startsWith (name entry) ''.''")
    case True
    then show ?thesis using 3(1) by simp
  next
    case hidden: False
    show ?thesis
    proof (cases "isDirectory entry")
      case True
      show ?thesis
      proof (cases "heavyDirectory (name entry)")
        case True
        then show ?thesis using hidden \<open>isDirectory entry\<close> 3(2) by simp
      next
        case False
        let ?st' = "loadDtsFromDir (Some fs) (entryPath dirPath entry) maxDepth (currentDepth + 1) st"
        have a: "regs ?ok st ?st'"
          using 3(3) [OF hidden True False] by simp
        have b: "regs ?ok ?st' (crawlEntries fs dirPath maxDepth currentDepth entries ?st')"
          using 3(4) [OF hidden True False] .
        show ?thesis
          using regs_trans [OF b a] hidden True False by simp
      qed
    next
      case False
      show ?thesis
      proof (cases "endsWith (name entry) ''.d.ts''")
        case True
        let ?st' = "loadDtsFile fs (entryPath dirPath entry) st"
        have b: "regs ?ok ?st' (crawlEntries fs dirPath maxDepth currentDepth entries ?st')"
          using 3(5) [OF hidden False True] .
        show ?thesis
          using regs_trans [OF b loadDtsFile_regs] hidden False True by simp
      next
        case other: False
        then show ?thesis using hidden False 3(6) by simp
      qed
    qed
  qed
qed

text \<open>What the crawler does at one declaration file, written out: the file is read and,
  below the threshold, handed to the register operation.\<close>

lemma loadDtsFile_cases:
  "loadDtsFile fs p st =
     (case readFile fs p of
        Inl e \<Rightarrow> st
      | Inr c \<Rightarrow> if length c < 500 * 1024 then addFileToMonaco p c st else st)"
  by (simp add: loadDtsFile_def)

lemma crawl_fold:
  shows "\<forall>fs0. gitton = Some fs0 \<longrightarrow>
      loadDtsFromDir gitton dirPath maxDepth currentDepth st =
      foldl (\<lambda>s p. loadDtsFile fs0 p s) st (declarationFiles fs0 dirPath maxDepth currentDepth)"
    and "crawlEntries fs dirPath1 maxDepth1 currentDepth1 entries st1 =
      foldl (\<lambda>s p. loadDtsFile fs p s) st1
        (declarationFilesOf fs dirPath1 maxDepth1 currentDepth1 entries)"
proof (induction gitton dirPath maxDepth currentDepth st
    and fs dirPath1 maxDepth1 currentDepth1 entries st1
    rule: loadDtsFromDir_crawlEntries.induct)
  case (1 gitton dirPath maxDepth currentDepth st)
  show ?case
  proof (intro allI impI)
    fix fs0
    assume g: "gitton = Some fs0"
    show "loadDtsFromDir gitton dirPath maxDepth currentDepth st =
      foldl (\<lambda>s p. loadDtsFile fs0 p s) st (declarationFiles fs0 dirPath maxDepth currentDepth)"
    proof (cases "maxDepth < currentDepth")
      case True
      then show ?thesis
        using g by (simp add: loadDtsFromDir.simps declarationFiles.simps)
    next
      case False
      show ?thesis
      proof (cases "readdir fs0 dirPath")
        case (Inl e)
        then show ?thesis
          using g False by (simp add: loadDtsFromDir.simps declarationFiles.simps)
      next
        case (Inr es)
        then show ?thesis
          using g False 1 [OF g False Inr]
          by (simp add: loadDtsFromDir.simps declarationFiles.simps)
      qed
    qed
  qed
next
  case (2 fs dirPath maxDepth currentDepth st)
  show ?case by simp
next
  case (3 fs dirPath maxDepth currentDepth entry entries st)
  show ?case
  proof (cases "startsWith (name entry) ''.''")
    case True
    then show ?thesis using 3(1) by simp
  next
    case hidden: False
    show ?thesis
    proof (cases "isDirectory entry")
      case True
      show ?thesis
      proof (cases "heavyDirectory (name entry)")
        case True
        then show ?thesis using hidden \<open>isDirectory entry\<close> 3(2) by simp
      next
        case False
        show ?thesis
          using hidden True False 3(3) [OF hidden True False] 3(4) [OF hidden True False]
          by simp
      qed
    next
      case False
      show ?thesis
      proof (cases "endsWith (name entry) ''.d.ts''")
        case True
        then show ?thesis
          using hidden False 3(5) [OF hidden False True] by simp
      next
        case other: False
        then show ?thesis using hidden False 3(6) by simp
      qed
    qed
  qed
qed

text \<open>What a sequence of registrations hands to the engine: nothing is taken back, and a
  path that is new afterwards has been handed over with the contents it was accepted for.\<close>

lemma regs_logs_grow:
  "regs ok st st' \<Longrightarrow>
   set (tsExtraLibs st) \<subseteq> set (tsExtraLibs st') \<and> set (jsExtraLibs st) \<subseteq> set (jsExtraLibs st')"
  by (induction rule: regs.induct) (auto simp: addFileToMonaco_def)

lemma regs_new_fed:
  "regs ok st st' \<Longrightarrow> p \<in> loadedFiles st' \<Longrightarrow> p \<notin> loadedFiles st \<Longrightarrow>
   \<exists>c. ok p c \<and> (c, fileUri p) \<in> set (tsExtraLibs st') \<and> (c, fileUri p) \<in> set (jsExtraLibs st')"
proof (induction rule: regs.induct)
  case regs_refl
  then show ?case by simp
next
  case (regs_step st0 st1 q c)
  show ?case
  proof (cases "p \<in> loadedFiles st1")
    case True
    then obtain c' where "ok p c'" "(c', fileUri p) \<in> set (tsExtraLibs st1)"
      "(c', fileUri p) \<in> set (jsExtraLibs st1)"
      using regs_step.IH regs_step.prems by blast
    then show ?thesis by (auto simp: addFileToMonaco_def)
  next
    case False
    then have "p = q" using regs_step.prems by simp
    then show ?thesis using False regs_step.hyps(2) by (auto simp: addFileToMonaco_def)
  qed
qed

text \<open>
  C8. A crawl is the sequence, over the declaration files it comes to and in their order,
  of: read the file and, if its size is below 500 * 1024, hand it with its contents to the
  register operation. So it registers exactly the files it comes to that can be read and
  are below the threshold; a declaration file that is not registered before the crawl comes
  to it is registered, and its uri and contents handed to the engine once, if and only if
  its size is below the threshold: at 500 * 1024 - 1 it is, at 500 * 1024 it is not and the
  session stays as it is.
\<close>

theorem crawler_size_filter:
  "loadDtsFromDir (Some fs) dirPath maxDepth currentDepth st =
     foldl (\<lambda>s p. case readFile fs p of
                     Inl e \<Rightarrow> s
                   | Inr c \<Rightarrow> if length c < 500 * 1024 then addFileToMonaco p c s else s)
       st (declarationFiles fs dirPath maxDepth currentDepth) \<and>
   loadedFiles (loadDtsFromDir (Some fs) dirPath maxDepth currentDepth st) =
     loadedFiles st \<union>
     {p \<in> set (declarationFiles fs dirPath maxDepth currentDepth).
        \<exists>c. readFile fs p = Inr c \<and> length c < 500 * 1024} \<and>
   (p \<in> set (declarationFiles fs dirPath maxDepth currentDepth) \<and> p \<notin> loadedFiles st \<and>
    readFile fs p = Inr content \<longrightarrow>
      (p \<in> loadedFiles (loadDtsFromDir (Some fs) dirPath maxDepth currentDepth st) \<longleftrightarrow>
       length content < 500 * 1024) \<and>
      (length content < 500 * 1024 \<longrightarrow>
         (content, fileUri p) \<in>
           set (tsExtraLibs (loadDtsFromDir (Some fs) dirPath maxDepth currentDepth st)) \<and>
         (content, fileUri p) \<in>
           set (jsExtraLibs (loadDtsFromDir (Some fs) dirPath maxDepth currentDepth st))) \<and>
      (fedOnce st \<longrightarrow>
         count_list (map snd (tsExtraLibs (loadDtsFromDir (Some fs) dirPath maxDepth currentDepth st)))
           (fileUri p) = (if length content < 500 * 1024 then 1 else 0) \<and>
         count_list (map snd (jsExtraLibs (loadDtsFromDir (Some fs) dirPath maxDepth currentDepth st)))
           (fileUri p) = (if length content < 500 * 1024 then 1 else 0))) \<and>
   (readFile fs p = Inr content \<and> length content = 500 * 1024 - 1 \<longrightarrow>
      loadDtsFile fs p st = addFileToMonaco p content st \<and>
      p \<in> loadedFiles (loadDtsFile fs p st)) \<and>
   (readFile fs p = Inr content \<and> 500 * 1024 \<le> length content \<longrightarrow>
      loadDtsFile fs p st = st)"
proof -
  let ?st' = "loadDtsFromDir (Some fs) dirPath maxDepth currentDepth st"
  let ?ok = "\<lambda>p c. readFile fs p = Inr c \<and> length c < 500 * 1024"
  have fold: "?st' =
     foldl (\<lambda>s p. case readFile fs p of
                     Inl e \<Rightarrow> s
                   | Inr c \<Rightarrow> if length c < 500 * 1024 then addFileToMonaco p c s else s)
       st (declarationFiles fs dirPath maxDepth currentDepth)"
    using crawl_fold(1) [of "Some fs" dirPath maxDepth currentDepth st]
    by (simp add: loadDtsFile_cases)
  have eq: "loadedFiles ?st' =
     loadedFiles st \<union>
     {p \<in> set (declarationFiles fs dirPath maxDepth currentDepth).
        \<exists>c. readFile fs p = Inr c \<and> length c < 500 * 1024}"
    using crawl_files(1) [of "Some fs" dirPath maxDepth currentDepth st]
    by (auto simp: registrable_iff)
  have r: "regs ?ok st ?st'"
    using crawl_regs(1) [of "Some fs" st dirPath maxDepth currentDepth] by simp
  have reach: "(p \<in> loadedFiles ?st' \<longleftrightarrow> length content < 500 * 1024) \<and>
      (length content < 500 * 1024 \<longrightarrow>
         (content, fileUri p) \<in> set (tsExtraLibs ?st') \<and>
         (content, fileUri p) \<in> set (jsExtraLibs ?st')) \<and>
      (fedOnce st \<longrightarrow>
         count_list (map snd (tsExtraLibs ?st')) (fileUri p) =
           (if length content < 500 * 1024 then 1 else 0) \<and>
         count_list (map snd (jsExtraLibs ?st')) (fileUri p) =
           (if length content < 500 * 1024 then 1 else 0))"
    if reached: "p \<in> set (declarationFiles fs dirPath maxDepth currentDepth)"
      and new: "p \<notin> loadedFiles st" and rd: "readFile fs p = Inr content"
  proof -
    have iff: "p \<in> loadedFiles ?st' \<longleftrightarrow> length content < 500 * 1024"
      unfolding eq using reached new rd by auto
    have fed: "(content, fileUri p) \<in> set (tsExtraLibs ?st') \<and>
        (content, fileUri p) \<in> set (jsExtraLibs ?st')" if "length content < 500 * 1024"
    proof -
      have "p \<in> loadedFiles ?st'" using iff that by simp
      then obtain c where "?ok p c" "(c, fileUri p) \<in> set (tsExtraLibs ?st')"
        "(c, fileUri p) \<in> set (jsExtraLibs ?st')"
        using regs_new_fed [OF r _ new] by blast
      then show ?thesis using rd by simp
    qed
    have cnt: "count_list (map snd (tsExtraLibs ?st')) (fileUri p) =
           (if length content < 500 * 1024 then 1 else 0) \<and>
         count_list (map snd (jsExtraLibs ?st')) (fileUri p) =
           (if length content < 500 * 1024 then 1 else 0)" if "fedOnce st"
      using fedOnce_count [OF regs_fedOnce [OF r that], of p] iff by simp
    show ?thesis using iff fed cnt by blast
  qed
  have small: "loadDtsFile fs p st = addFileToMonaco p content st \<and>
      p \<in> loadedFiles (loadDtsFile fs p st)"
    if "readFile fs p = Inr content \<and> length content = 500 * 1024 - 1"
    using that by (simp add: loadDtsFile_def)
  have big: "loadDtsFile fs p st = st"
    if "readFile fs p = Inr content \<and> 500 * 1024 \<le> length content"
    using that by (simp add: loadDtsFile_def)
  show ?thesis
    using fold eq reach small big by blast
qed

section \<open>Properties of the package type loader\<close>

lemma loadSourceFile_packageLoads:
  "packageLoads (loadSourceFile gitton cfg filePath depth st) = packageLoads st"
proof (cases gitton)
  case None
  then show ?thesis by (simp add: loadSourceFile.simps)
next
  case (Some fs)
  then show ?thesis using regs_packageLoads [OF loadSourceFile_regs] by simp
qed

lemma loadDtsFromDir_packageLoads:
  "packageLoads (loadDtsFromDir gitton dirPath maxDepth currentDepth st) = packageLoads st"
  using regs_packageLoads [OF crawl_regs(1)] .

lemma loadManifestTypes_packageLoads:
  "packageLoads (loadManifestTypes fs parseManifest packagePath st) = packageLoads st"
  by (simp add: loadManifestTypes_def Let_def split: sum.splits manifest.splits)

lemma loadPackageTypes_packageLoads:
  "packageLoads (snd (loadPackageTypes gitton parseManifest pkg st)) = packageLoads st @ [pkg]"
  by (simp add: loadPackageTypes_def Let_def loadDtsFromDir_packageLoads
      loadManifestTypes_packageLoads split: option.splits sum.splits)

lemma loadPackages_packageLoads:
  "set (packageLoads (snd (loadPackages gitton parseManifest pkgs st))) \<subseteq>
     set (packageLoads st) \<union> set pkgs"
proof (induction pkgs arbitrary: st)
  case Nil
  show ?case by simp
next
  case (Cons pkg pkgs)
  obtain r st' where l: "loadPackageTypes gitton parseManifest pkg st = (r, st')"
    by (cases "loadPackageTypes gitton parseManifest pkg st")
  have p: "packageLoads st' = packageLoads st @ [pkg]"
    using loadPackageTypes_packageLoads [of gitton parseManifest pkg st] l by simp
  show ?case
  proof (cases r)
    case Returned
    then show ?thesis using Cons [of st'] l p by auto
  next
    case (Rejected e)
    then show ?thesis using l p by auto
  qed
qed

lemma loadAllNodeModulesTypes_packageLoads:
  "set (packageLoads (snd (loadAllNodeModulesTypes gitton parseManifest st))) \<subseteq>
     set (packageLoads st) \<union> set priorityPackages \<union> typesDirectoryPackages gitton"
proof (cases gitton)
  case None
  then show ?thesis by (auto simp: loadAllNodeModulesTypes_def)
next
  case (Some fs)
  obtain r st' where l: "loadPackages gitton parseManifest priorityPackages st = (r, st')"
    by (cases "loadPackages gitton parseManifest priorityPackages st")
  have p: "set (packageLoads st') \<subseteq> set (packageLoads st) \<union> set priorityPackages"
    using loadPackages_packageLoads [of gitton parseManifest priorityPackages st] l by simp
  show ?thesis
  proof (cases r)
    case (Rejected e)
    then show ?thesis using Some l p by (auto simp: loadAllNodeModulesTypes_def)
  next
    case Returned
    show ?thesis
    proof (cases "readdir fs ''node_modules/@types''")
      case (Inl e)
      then show ?thesis
        using Some l p Returned
        by (auto simp: loadAllNodeModulesTypes_def split: sum.splits)
    next
      case (Inr entries)
      have "set (packageLoads (snd (loadPackages gitton parseManifest (typesPackages entries) st'))) \<subseteq>
          set (packageLoads st') \<union> set (typesPackages entries)"
        by (rule loadPackages_packageLoads)
      then show ?thesis
        using Some l p Returned Inr
        by (auto simp: loadAllNodeModulesTypes_def typesDirectoryPackages_def split: sum.splits)
    qed
  qed
qed

lemma foldl_loadSourceFile_packageLoads:
  "packageLoads (foldl (\<lambda>s entry. loadSourceFile gitton cfg entry depth s) st entries) =
     packageLoads st"
  by (induction entries arbitrary: st) (simp_all add: loadSourceFile_packageLoads)

lemma loadProjectSources_packageLoads:
  "packageLoads (loadProjectSources gitton cfg st) = packageLoads st"
  by (simp add: loadProjectSources_def loadDtsFromDir_packageLoads
      foldl_loadSourceFile_packageLoads split: option.splits)

lemma initTypeSystem_packageLoads:
  "set (packageLoads (snd (initTypeSystem gitton parseManifest cfg st))) \<subseteq>
     set (packageLoads st) \<union> set priorityPackages \<union> typesDirectoryPackages gitton"
proof -
  obtain r st' where l: "loadAllNodeModulesTypes gitton parseManifest st = (r, st')"
    by (cases "loadAllNodeModulesTypes gitton parseManifest st")
  have "set (packageLoads st') \<subseteq>
      set (packageLoads st) \<union> set priorityPackages \<union> typesDirectoryPackages gitton"
    using loadAllNodeModulesTypes_packageLoads [of gitton parseManifest st] l by simp
  then show ?thesis
    using l by (cases r) (simp_all add: initTypeSystem_def loadProjectSources_packageLoads)
qed

text \<open>
  C5 (as amended). The source loader never calls the package-type loader, whatever the
  specifier. A specifier that begins with \<^verbatim>\<open>.\<close> is resolved against the directory of the
  importing file and loaded at the next depth; one that begins with \<^verbatim>\<open>@/\<close> or \<^verbatim>\<open>~/\<close> is loaded
  at the next depth when alias resolution returns a path that is not empty, and skipped
  otherwise; every other (external) specifier is skipped with no effect. The package-type
  loader is called at session start only, for the packages of the fixed priority list and
  for the directories listed under \<^verbatim>\<open>node_modules/@types\<close>, whatever the files import.
\<close>

theorem external_specifiers_not_routed:
  "packageLoads (loadSourceFile gitton cfg filePath depth st) = packageLoads st \<and>
   packageLoads (loadImports fs cfg fullPath depth specs st) = packageLoads st \<and>
   (\<not> startsWith importPath ''.'' \<and> \<not> startsWith importPath ''@/'' \<and>
    \<not> startsWith importPath ''~/'' \<longrightarrow>
      loadImports fs cfg fullPath depth (importPath # specs) st =
      loadImports fs cfg fullPath depth specs st) \<and>
   (startsWith importPath ''.'' \<longrightarrow>
      loadImports fs cfg fullPath depth (importPath # specs) st =
      loadImports fs cfg fullPath depth specs
        (loadSourceFile (Some fs) cfg
          (normalizePath (replaceSlashDotSlash
            (joinWith ''/'' (butlast (splitOn CHR ''/'' fullPath)) @ ''/'' @ importPath)))
          (depth + 1) st)) \<and>
   (startsWith importPath ''@/'' \<or> startsWith importPath ''~/'' \<longrightarrow>
      loadImports fs cfg fullPath depth (importPath # specs) st =
      (case resolvePathAlias cfg importPath of
         None \<Rightarrow> loadImports fs cfg fullPath depth specs st
       | Some aliasResolved \<Rightarrow>
           if aliasResolved \<noteq> [] then
             loadImports fs cfg fullPath depth specs
               (loadSourceFile (Some fs) cfg (normalizePath aliasResolved) (depth + 1) st)
           else loadImports fs cfg fullPath depth specs st)) \<and>
   set (packageLoads (snd (initTypeSystem gitton parseManifest cfg st))) \<subseteq>
     set (packageLoads st) \<union> set priorityPackages \<union> typesDirectoryPackages gitton"
proof -
  have nodot: "\<not> startsWith importPath ''.''"
    if "startsWith importPath ''@/'' \<or> startsWith importPath ''~/''"
    using that by (cases importPath) (auto simp: startsWith_def)
  have al: "loadImports fs cfg fullPath depth (importPath # specs) st =
      (case resolvePathAlias cfg importPath of
         None \<Rightarrow> loadImports fs cfg fullPath depth specs st
       | Some aliasResolved \<Rightarrow>
           if aliasResolved \<noteq> [] then
             loadImports fs cfg fullPath depth specs
               (loadSourceFile (Some fs) cfg (normalizePath aliasResolved) (depth + 1) st)
           else loadImports fs cfg fullPath depth specs st)"
    if "startsWith importPath ''@/'' \<or> startsWith importPath ''~/''"
    using that nodot [OF that]
    by (cases "resolvePathAlias cfg importPath") (auto simp: resolveImport_def)
  have rel: "loadImports fs cfg fullPath depth (importPath # specs) st =
      loadImports fs cfg fullPath depth specs
        (loadSourceFile (Some fs) cfg
          (normalizePath (replaceSlashDotSlash
            (joinWith ''/'' (butlast (splitOn CHR ''/'' fullPath)) @ ''/'' @ importPath)))
          (depth + 1) st)"
    if "startsWith importPath ''.''"
    using that by (simp add: resolveImport_def Let_def)
  have ext: "loadImports fs cfg fullPath depth (importPath # specs) st =
      loadImports fs cfg fullPath depth specs st"
    if "\<not> startsWith importPath ''.'' \<and> \<not> startsWith importPath ''@/'' \<and>
      \<not> startsWith importPath ''~/''"
    using that by (simp add: resolveImport_def)
  show ?thesis
    using loadSourceFile_packageLoads [of gitton cfg filePath depth st]
      regs_packageLoads [OF load_regs(3), of fs cfg fullPath depth specs st]
      initTypeSystem_packageLoads [of gitton parseManifest cfg st]
      al rel ext
    by blast
qed

section \<open>Import chains and the depth bound\<close>

lemma importChain_probe:
  "importChain fs cfg chain \<Longrightarrow> (s, f, c) \<in> set chain \<Longrightarrow> probe fs s extensions = Some (f, c)"
  by (induction fs cfg chain rule: importChain.induct) auto

lemma importChain_tl: "importChain fs cfg (x # chain) \<Longrightarrow> importChain fs cfg chain"
  by (cases x; cases chain) auto

lemma chain_load_session:
  assumes "importChain fs cfg ((s, f, c) # chain)"
    and "6 \<le> Suc (length chain) + d"
    and "distinct (chainFiles ((s, f, c) # chain))"
    and "set (chainStems ((s, f, c) # chain)) \<inter> loadedFiles st = {}"
    and "set (chainFiles ((s, f, c) # chain)) \<inter> loadedFiles st = {}"
  shows "loadSourceFile (Some fs) cfg s d st =
    foldl (\<lambda>st (s, f, c). addFileToMonaco f c st) st (take (6 - d) ((s, f, c) # chain))"
  using assms
proof (induction chain arbitrary: s f c d st)
  case Nil
  show ?case
  proof (cases "5 < d")
    case True
    then show ?thesis by (simp add: loadSourceFile_too_deep)
  next
    case False
    then have d: "d = 5" using Nil.prems(2) by simp
    have "s \<notin> loadedFiles st" using Nil.prems(4) by (simp add: chainStems_def)
    moreover have "probe fs s extensions = Some (f, c)" using Nil.prems(1) by simp
    ultimately have "loadSourceFile (Some fs) cfg s d st = addFileToMonaco f c st"
      using d by (simp add: loadSourceFile_probe loadImports_foldl foldl_load_too_deep)
    then show ?thesis using d by simp
  qed
next
  case (Cons nxt chain)
  obtain s' f' c' where nxt: "nxt = (s', f', c')" by (cases nxt)
  show ?case
  proof (cases "5 < d")
    case True
    then show ?thesis by (simp add: loadSourceFile_too_deep)
  next
    case False
    have new: "s \<notin> loadedFiles st" using Cons.prems(4) by (simp add: chainStems_def)
    have pr: "probe fs s extensions = Some (f, c)"
      and tg: "importTargets cfg f (importSpecifiers c) = [s']"
      and ch: "importChain fs cfg ((s', f', c') # chain)"
      using Cons.prems(1) nxt by simp_all
    let ?st1 = "addFileToMonaco f c st"
    have eq: "loadSourceFile (Some fs) cfg s d st = loadSourceFile (Some fs) cfg s' (Suc d) ?st1"
      using False new pr tg by (simp add: loadSourceFile_probe loadImports_foldl)
    have dist: "distinct (chainFiles ((s', f', c') # chain))"
      and fnew: "f \<notin> set (chainFiles ((s', f', c') # chain))"
      using Cons.prems(3) nxt by (simp_all add: chainFiles_def)
    have stems: "set (chainStems ((s', f', c') # chain)) \<inter> loadedFiles ?st1 = {}"
    proof -
      have "f \<notin> set (chainStems ((s', f', c') # chain))"
      proof
        assume "f \<in> set (chainStems ((s', f', c') # chain))"
        then obtain g e where in_chain: "(f, g, e) \<in> set ((s', f', c') # chain)"
          by (auto simp: chainStems_def)
        then have "probe fs f extensions = Some (g, e)"
          using importChain_probe [OF ch] by blast
        moreover have "probe fs f extensions = Some (f, c)"
          using probe_self [OF probe_readable [OF pr]] .
        ultimately have "g = f" by simp
        then have "f \<in> set (chainFiles ((s', f', c') # chain))"
          using in_chain by (force simp: chainFiles_def)
        then show False using fnew by simp
      qed
      moreover have "set (chainStems ((s', f', c') # chain)) \<inter> loadedFiles st = {}"
        using Cons.prems(4) nxt by (auto simp: chainStems_def)
      ultimately show ?thesis by auto
    qed
    have files: "set (chainFiles ((s', f', c') # chain)) \<inter> loadedFiles ?st1 = {}"
      using Cons.prems(5) fnew nxt by (auto simp: chainFiles_def)
    have "loadSourceFile (Some fs) cfg s' (Suc d) ?st1 =
        foldl (\<lambda>st (s, f, c). addFileToMonaco f c st) ?st1
          (take (6 - Suc d) ((s', f', c') # chain))"
      using Cons.prems(2) by (intro Cons.IH [OF ch _ dist stems files]) simp
    moreover have "take (6 - d) ((s, f, c) # nxt # chain) =
        (s, f, c) # take (6 - Suc d) ((s', f', c') # chain)"
      using False nxt by (simp add: take_Cons')
    ultimately show ?thesis using eq by simp
  qed
qed

lemma register_chain_logs:
  "distinct (chainFiles xs) \<Longrightarrow> set (chainFiles xs) \<inter> loadedFiles st = {} \<Longrightarrow>
   loadedFiles (foldl (\<lambda>st (s, f, c). addFileToMonaco f c st) st xs) =
     loadedFiles st \<union> set (chainFiles xs) \<and>
   tsExtraLibs (foldl (\<lambda>st (s, f, c). addFileToMonaco f c st) st xs) =
     tsExtraLibs st @ map (\<lambda>(s, f, c). (c, fileUri f)) xs \<and>
   jsExtraLibs (foldl (\<lambda>st (s, f, c). addFileToMonaco f c st) st xs) =
     jsExtraLibs st @ map (\<lambda>(s, f, c). (c, fileUri f)) xs"
proof (induction xs arbitrary: st)
  case Nil
  show ?case by (simp add: chainFiles_def)
next
  case (Cons x xs)
  obtain s f c where x: "x = (s, f, c)" by (cases x)
  have new: "f \<notin> loadedFiles st" using Cons.prems(2) x by (simp add: chainFiles_def)
  have "distinct (chainFiles xs)"
    and "set (chainFiles xs) \<inter> loadedFiles (addFileToMonaco f c st) = {}"
    using Cons.prems x by (auto simp: chainFiles_def)
  from Cons.IH [OF this] show ?case
    using new x by (simp add: chainFiles_def addFileToMonaco_def)
qed

text \<open>
  C3 (as amended). A load at a depth above 5 changes nothing. The entry point is loaded at
  depth 0 and the bound is inclusive. Take a chain of at least 6 distinct files in which,
  for each file but the last, the specifiers that the loader extracts from the file and
  follows come to one path, the stem of the next file, and each stem has its file as the
  first candidate that exists and can be read; none of the stems and files is registered
  yet. A load of the entry point then registers the first 6 files of the chain, those at
  depths 0 to 5, and no other path: the session is the one that registering these 6 files
  in chain order gives, each handed to both engines once with its contents. From a file of
  a directory whose path has at least one segment, \<^verbatim>\<open>./n\<close> resolves to the stem \<open>n\<close> of that
  directory, so relative imports between the files of such a directory satisfy the
  condition on the paths.
\<close>

theorem chain_registers_six:
  assumes "importChain fs cfg chain"
    and "6 \<le> length chain"
    and "distinct (chainFiles chain)"
    and "set (chainStems chain) \<inter> loadedFiles st = {}"
    and "set (chainFiles chain) \<inter> loadedFiles st = {}"
  shows "loadedFiles (loadSourceFile (Some fs) cfg (hd (chainStems chain)) 0 st) =
           loadedFiles st \<union> set (chainFiles (take 6 chain)) \<and>
         card (loadedFiles (loadSourceFile (Some fs) cfg (hd (chainStems chain)) 0 st) -
           loadedFiles st) = 6 \<and>
         loadSourceFile gitton cfg filePath (6 + k) st = st \<and>
         loadSourceFile (Some fs) cfg (hd (chainStems chain)) 0 st =
           foldl (\<lambda>st (s, f, c). addFileToMonaco f c st) st (take 6 chain) \<and>
         tsExtraLibs (loadSourceFile (Some fs) cfg (hd (chainStems chain)) 0 st) =
           tsExtraLibs st @ map (\<lambda>(s, f, c). (c, fileUri f)) (take 6 chain) \<and>
         jsExtraLibs (loadSourceFile (Some fs) cfg (hd (chainStems chain)) 0 st) =
           jsExtraLibs st @ map (\<lambda>(s, f, c). (c, fileUri f)) (take 6 chain) \<and>
         (segs \<noteq> [] \<and>
          (\<forall>seg \<in> set segs. CHR ''/'' \<notin> set seg \<and> seg \<noteq> ''.'' \<and> seg \<noteq> ''..'') \<and>
          CHR ''/'' \<notin> set file \<and> CHR ''/'' \<notin> set n \<and> n \<noteq> ''.'' \<and> n \<noteq> ''..'' \<longrightarrow>
            resolveImport cfg (joinWith ''/'' (segs @ [file])) (''./'' @ n) =
              Some (joinWith ''/'' (segs @ [n])))"
proof -
  obtain s f c rest where ch: "chain = (s, f, c) # rest"
    using assms(2) by (cases chain) auto
  have run: "loadSourceFile (Some fs) cfg s 0 st =
      foldl (\<lambda>st (s, f, c). addFileToMonaco f c st) st (take (6 - 0) ((s, f, c) # rest))"
    using assms unfolding ch by (intro chain_load_session) simp_all
  have d: "distinct (chainFiles (take 6 chain))"
    using assms(3) by (simp add: chainFiles_def take_map [symmetric] distinct_take)
  have disj: "set (chainFiles (take 6 chain)) \<inter> loadedFiles st = {}"
  proof -
    have "set (chainFiles (take 6 chain)) \<subseteq> set (chainFiles chain)"
      unfolding chainFiles_def take_map [symmetric] by (rule set_take_subset)
    then show ?thesis using assms(5) by blast
  qed
  note logs = register_chain_logs [OF d disj]
  have run': "loadSourceFile (Some fs) cfg (hd (chainStems chain)) 0 st =
      foldl (\<lambda>st (s, f, c). addFileToMonaco f c st) st (take 6 chain)"
    using run ch by (simp add: chainStems_def)
  have "loadedFiles (loadSourceFile (Some fs) cfg (hd (chainStems chain)) 0 st) - loadedFiles st =
      set (chainFiles (take 6 chain))"
    unfolding run' using logs disj by auto
  then have card: "card (loadedFiles (loadSourceFile (Some fs) cfg (hd (chainStems chain)) 0 st) -
      loadedFiles st) = 6"
    using distinct_card [OF d] assms(2) by (simp add: chainFiles_def)
  have deep: "loadSourceFile gitton cfg filePath (6 + k) st = st"
    by (simp add: loadSourceFile_too_deep)
  have sib: "resolveImport cfg (joinWith ''/'' (segs @ [file])) (''./'' @ n) =
      Some (joinWith ''/'' (segs @ [n]))"
    if "segs \<noteq> [] \<and>
      (\<forall>seg \<in> set segs. CHR ''/'' \<notin> set seg \<and> seg \<noteq> ''.'' \<and> seg \<noteq> ''..'') \<and>
      CHR ''/'' \<notin> set file \<and> CHR ''/'' \<notin> set n \<and> n \<noteq> ''.'' \<and> n \<noteq> ''..''"
    using that by (intro resolveImport_sibling) auto
  show ?thesis
    using logs card deep sib unfolding run' [symmetric] by blast
qed

section \<open>The examples, evaluated\<close>

lemmas example_defs =
  sq_def fsOfFiles_def noAliases_def cycleA_def cycleB_def cycleFs_def unreadableTsFs_def

lemmas eval_defs =
  startsWith_def endsWith_def stripDotSlash_def normalizeStep_def normalizeSegments_def
  normalizePath_def emptySession_def fileUri_def addFileToMonaco_def
  isSpace_def isWordChar_def isQuote_def isLineTerminator_def regexExecAt_def importRegex_def
  importSpecifiers.simps jsReplace_def isRegexSpecial_def escapeRegex_def aliasRegexSource_def
  aliasRegex_def aliasMatch_def aliasTarget_def resolvePathAlias_def extensions_def
  resolveImport_def importTargets_def List.map_filter_simps Let_def

theorem cyclic_imports_registered_once_witness:
  "probe cycleFs ''src/A.ts'' extensions = Some (''src/A.ts'', cycleA) \<and>
   probe cycleFs ''src/A'' extensions = Some (''src/A.ts'', cycleA) \<and>
   probe cycleFs ''src/B'' extensions = Some (''src/B.ts'', cycleB) \<and>
   importTargets noAliases ''src/A.ts'' (importSpecifiers cycleA) = [''src/B''] \<and>
   importTargets noAliases ''src/B.ts'' (importSpecifiers cycleB) = [''src/A''] \<and>
   loadSourceFile_tryExtensions_loadImports_dom
     (Inl (Some cycleFs, noAliases, ''src/A.ts'', 0, emptySession)) \<and>
   count_list (map snd (tsExtraLibs (loadSourceFile (Some cycleFs) noAliases ''src/A.ts'' 0 emptySession)))
     ''file:///src/A.ts'' = 1 \<and>
   count_list (map snd (tsExtraLibs (loadSourceFile (Some cycleFs) noAliases ''src/A.ts'' 0 emptySession)))
     ''file:///src/B.ts'' = 1 \<and>
   count_list (map snd (jsExtraLibs (loadSourceFile (Some cycleFs) noAliases ''src/A.ts'' 0 emptySession)))
     ''file:///src/A.ts'' = 1 \<and>
   count_list (map snd (jsExtraLibs (loadSourceFile (Some cycleFs) noAliases ''src/A.ts'' 0 emptySession)))
     ''file:///src/B.ts'' = 1 \<and>
   ''./B'' \<in> set (importSpecifiers cycleA) \<and>
   ''src/B'' \<in> set (importTargets noAliases ''src/A.ts'' (importSpecifiers cycleA))"
proof -
  have pa: "probe cycleFs ''src/A.ts'' extensions = Some (''src/A.ts'', cycleA)"
    by (simp add: example_defs extensions_def)
  have pa': "probe cycleFs ''src/A'' extensions = Some (''src/A.ts'', cycleA)"
    by (simp add: example_defs extensions_def)
  have pb: "probe cycleFs ''src/B'' extensions = Some (''src/B.ts'', cycleB)"
    by (simp add: example_defs extensions_def)
  have specs: "importSpecifiers cycleA = [''./B'']"
    by (simp add: example_defs eval_defs)
  have ab: "importTargets noAliases ''src/A.ts'' (importSpecifiers cycleA) = [''src/B'']"
    by (simp add: example_defs eval_defs)
  have ba: "importTargets noAliases ''src/B.ts'' (importSpecifiers cycleB) = [''src/A'']"
    by (simp add: example_defs eval_defs)
  have ab': "''src/B'' \<in> set (importTargets noAliases ''src/A.ts'' (importSpecifiers cycleA))"
    and ba': "''src/A'' \<in> set (importTargets noAliases ''src/B.ts'' (importSpecifiers cycleB))"
    unfolding ab ba by simp_all
  have d: "(0 :: nat) \<le> 4" by simp
  have new: "''src/A.ts'' \<notin> loadedFiles emptySession"
    by (simp add: emptySession_def)
  have old: "''src/B'' \<in> loadedFiles emptySession \<longrightarrow> ''src/B.ts'' \<in> loadedFiles emptySession"
    by (simp add: emptySession_def)
  have plain: "[''src''] \<noteq> [] \<and>
      (\<forall>seg \<in> set [''src'']. CHR ''/'' \<notin> set seg \<and> seg \<noteq> ''.'' \<and> seg \<noteq> ''..'') \<and>
      CHR ''/'' \<notin> set ''A.ts'' \<and> CHR ''/'' \<notin> set ''B'' \<and> ''B'' \<noteq> ''.'' \<and> ''B'' \<noteq> ''..'' \<and>
      ''./'' @ ''B'' \<in> set (importSpecifiers cycleA)"
    unfolding specs by simp
  note inst = cyclic_imports_registered_once [OF fedOnce_empty d new old pa pb ab' pa' ba',
      of "Inl (Some cycleFs, noAliases, ''src/A.ts'', 0, emptySession)" "[]" 0 "[]"
        "[''src'']" "''A.ts''" "''B''" cycleA]
  have sib: "''src/B'' \<in> set (importTargets noAliases ''src/A.ts'' (importSpecifiers cycleA))"
    using inst plain by simp
  have cnt: "loadSourceFile_tryExtensions_loadImports_dom
       (Inl (Some cycleFs, noAliases, ''src/A.ts'', 0, emptySession)) \<and>
     count_list (map snd (tsExtraLibs (loadSourceFile (Some cycleFs) noAliases ''src/A.ts'' 0 emptySession)))
       ''file:///src/A.ts'' = 1 \<and>
     count_list (map snd (tsExtraLibs (loadSourceFile (Some cycleFs) noAliases ''src/A.ts'' 0 emptySession)))
       ''file:///src/B.ts'' = 1 \<and>
     count_list (map snd (jsExtraLibs (loadSourceFile (Some cycleFs) noAliases ''src/A.ts'' 0 emptySession)))
       ''file:///src/A.ts'' = 1 \<and>
     count_list (map snd (jsExtraLibs (loadSourceFile (Some cycleFs) noAliases ''src/A.ts'' 0 emptySession)))
       ''file:///src/B.ts'' = 1"
    using inst by (simp add: fileUri_def)
  have mem: "''./B'' \<in> set (importSpecifiers cycleA)"
    unfolding specs by simp
  show ?thesis
    using pa pa' pb ab ba cnt sib mem by blast
qed

theorem cyclic_imports_beyond_depth_counterexample:
  "probe deepCycleFs ''src/A'' extensions = Some (''src/A.ts'', cycleA) \<and>
   probe deepCycleFs ''src/B'' extensions = Some (''src/B.ts'', cycleB) \<and>
   importTargets noAliases ''src/A.ts'' (importSpecifiers cycleA) = [''src/B''] \<and>
   importTargets noAliases ''src/B.ts'' (importSpecifiers cycleB) = [''src/A''] \<and>
   map snd (tsExtraLibs (loadSourceFile (Some deepCycleFs) noAliases ''src/index.ts'' 0 emptySession)) =
     [''file:///src/index.ts'', ''file:///src/f1.ts'', ''file:///src/f2.ts'',
      ''file:///src/f3.ts'', ''file:///src/f4.ts'', ''file:///src/A.ts''] \<and>
   count_list
     (map snd (tsExtraLibs (loadSourceFile (Some deepCycleFs) noAliases ''src/index.ts'' 0 emptySession)))
     ''file:///src/B.ts'' \<noteq> 1 \<and>
   ''src/B.ts'' \<notin> loadedFiles (loadSourceFile (Some deepCycleFs) noAliases ''src/index.ts'' 0 emptySession) \<and>
   probe rootCycleFs ''A'' extensions = Some (''A.ts'', cycleA) \<and>
   importSpecifiers cycleA = [''./B''] \<and>
   resolveImport noAliases ''A.ts'' ''./B'' = Some ''/B'' \<and>
   probe rootCycleFs ''/B'' extensions = None \<and>
   loadedFiles (loadSourceFile (Some rootCycleFs) noAliases ''src/index.ts'' 0 emptySession) =
     {''src/index.ts'', ''A.ts''}"
proof -
  have run: "loadSourceFile (Some deepCycleFs) noAliases ''src/index.ts'' 0 emptySession =
      \<lparr>loadedFiles = {''src/index.ts'', ''src/f1.ts'', ''src/f2.ts'', ''src/f3.ts'', ''src/f4.ts'',
         ''src/A.ts''},
       tsExtraLibs =
         [(''import { f1 } from '' @ sq ''./f1'', ''file:///src/index.ts''),
          (''import { f2 } from '' @ sq ''./f2'', ''file:///src/f1.ts''),
          (''import { f3 } from '' @ sq ''./f3'', ''file:///src/f2.ts''),
          (''import { f4 } from '' @ sq ''./f4'', ''file:///src/f3.ts''),
          (''import { a } from '' @ sq ''./A'', ''file:///src/f4.ts''),
          (cycleA, ''file:///src/A.ts'')],
       jsExtraLibs =
         [(''import { f1 } from '' @ sq ''./f1'', ''file:///src/index.ts''),
          (''import { f2 } from '' @ sq ''./f2'', ''file:///src/f1.ts''),
          (''import { f3 } from '' @ sq ''./f3'', ''file:///src/f2.ts''),
          (''import { f4 } from '' @ sq ''./f4'', ''file:///src/f3.ts''),
          (''import { a } from '' @ sq ''./A'', ''file:///src/f4.ts''),
          (cycleA, ''file:///src/A.ts'')],
       packageLoads = []\<rparr>"
    by (simp add: deepCycleFs_def example_defs eval_defs loadSourceFile.simps insert_commute)
  have root: "loadedFiles (loadSourceFile (Some rootCycleFs) noAliases ''src/index.ts'' 0 emptySession) =
      {''src/index.ts'', ''A.ts''}"
    by (simp add: rootCycleFs_def example_defs eval_defs loadSourceFile.simps insert_commute)
  have pr: "probe deepCycleFs ''src/A'' extensions = Some (''src/A.ts'', cycleA)"
      "probe deepCycleFs ''src/B'' extensions = Some (''src/B.ts'', cycleB)"
      "probe rootCycleFs ''A'' extensions = Some (''A.ts'', cycleA)"
      "probe rootCycleFs ''/B'' extensions = None"
    by (simp_all add: deepCycleFs_def rootCycleFs_def example_defs extensions_def)
  have im: "importTargets noAliases ''src/A.ts'' (importSpecifiers cycleA) = [''src/B'']"
      "importTargets noAliases ''src/B.ts'' (importSpecifiers cycleB) = [''src/A'']"
      "importSpecifiers cycleA = [''./B'']"
      "resolveImport noAliases ''A.ts'' ''./B'' = Some ''/B''"
    by (simp_all add: example_defs eval_defs)
  show ?thesis
    unfolding run using pr im root by simp
qed

theorem probing_continues_after_failure_witness:
  "exists unreadableTsFs ''src/a.ts'' = Inr True \<and>
   readFile unreadableTsFs ''src/a.ts'' = Inl IOError \<and>
   tryExtensions unreadableTsFs noAliases ''src/a'' 0 [''.ts'', ''.tsx''] emptySession =
     tryExtensions unreadableTsFs noAliases ''src/a'' 0 [''.tsx''] emptySession \<and>
   loadedFiles (loadSourceFile (Some unreadableTsFs) noAliases ''src/a'' 0 emptySession) =
     {''src/a.tsx''}"
proof -
  have ex: "exists unreadableTsFs ''src/a.ts'' = Inr True"
    and rd: "readFile unreadableTsFs ''src/a.ts'' = Inl IOError"
    and no: "exists unreadableTsFs ''src/a'' = Inr False"
    and ex': "exists unreadableTsFs (''src/a'' @ ''.tsx'') = Inr True"
    and rd': "readFile unreadableTsFs (''src/a'' @ ''.tsx'') = Inr ''export const a = 1''"
    by (simp_all add: unreadableTsFs_def)
  have specs: "importSpecifiers ''export const a = 1'' = []"
    by (simp add: eval_defs)
  have new: "''src/a'' \<notin> loadedFiles emptySession"
    by (simp add: emptySession_def)
  note inst = probing_continues_after_failure [of unreadableTsFs "''src/a''" "''.ts''" IOError
      noAliases 0 "[''.tsx'']" emptySession "''src/a''" "''export const a = 1''" 0]
  show ?thesis
    using inst ex rd no ex' rd' new specs by (simp add: emptySession_def)
qed

lemma chain7_chain: "importChain chainFs noAliases chain7"
  by (simp add: chain7_def chainFs_def example_defs eval_defs)

theorem chain_registers_six_witness:
  "importChain chainFs noAliases chain7 \<and> length chain7 = 7 \<and>
   loadedFiles (loadSourceFile (Some chainFs) noAliases ''src/f0.ts'' 0 emptySession) =
     {''src/f0.ts'', ''src/f1.ts'', ''src/f2.ts'', ''src/f3.ts'', ''src/f4.ts'', ''src/f5.ts''} \<and>
   card (loadedFiles (loadSourceFile (Some chainFs) noAliases ''src/f0.ts'' 0 emptySession)) = 6 \<and>
   map snd (jsExtraLibs (loadSourceFile (Some chainFs) noAliases ''src/f0.ts'' 0 emptySession)) =
     [''file:///src/f0.ts'', ''file:///src/f1.ts'', ''file:///src/f2.ts'',
      ''file:///src/f3.ts'', ''file:///src/f4.ts'', ''file:///src/f5.ts''] \<and>
   resolveImport noAliases ''src/f0.ts'' ''./f1'' = Some ''src/f1''"
proof -
  have len: "6 \<le> length chain7" and len7: "length chain7 = 7"
    by (simp_all add: chain7_def)
  have dist: "distinct (chainFiles chain7)"
    by (simp add: chain7_def chainFiles_def)
  have stems: "set (chainStems chain7) \<inter> loadedFiles emptySession = {}"
    and files: "set (chainFiles chain7) \<inter> loadedFiles emptySession = {}"
    by (simp_all add: emptySession_def)
  have hd: "hd (chainStems chain7) = ''src/f0.ts''"
    by (simp add: chain7_def chainStems_def)
  have six: "set (chainFiles (take 6 chain7)) =
      {''src/f0.ts'', ''src/f1.ts'', ''src/f2.ts'', ''src/f3.ts'', ''src/f4.ts'', ''src/f5.ts''}"
    by (simp add: chain7_def chainFiles_def)
  have uris: "map snd (map (\<lambda>(s, f, c). (c, fileUri f)) (take 6 chain7)) =
      [''file:///src/f0.ts'', ''file:///src/f1.ts'', ''file:///src/f2.ts'',
       ''file:///src/f3.ts'', ''file:///src/f4.ts'', ''file:///src/f5.ts'']"
    by (simp add: chain7_def fileUri_def)
  have plain: "[''src''] \<noteq> [] \<and>
      (\<forall>seg \<in> set [''src'']. CHR ''/'' \<notin> set seg \<and> seg \<noteq> ''.'' \<and> seg \<noteq> ''..'') \<and>
      CHR ''/'' \<notin> set ''f0.ts'' \<and> CHR ''/'' \<notin> set ''f1'' \<and> ''f1'' \<noteq> ''.'' \<and> ''f1'' \<noteq> ''..''"
    by simp
  note inst = chain_registers_six [OF chain7_chain len dist stems files,
      of None "[]" 0 "[''src'']" "''f0.ts''" "''f1''"]
  have js: "map snd (jsExtraLibs (loadSourceFile (Some chainFs) noAliases ''src/f0.ts'' 0
        emptySession)) =
      [''file:///src/f0.ts'', ''file:///src/f1.ts'', ''file:///src/f2.ts'',
       ''file:///src/f3.ts'', ''file:///src/f4.ts'', ''file:///src/f5.ts'']"
  proof -
    have "jsExtraLibs (loadSourceFile (Some chainFs) noAliases ''src/f0.ts'' 0 emptySession) =
        jsExtraLibs emptySession @ map (\<lambda>(s, f, c). (c, fileUri f)) (take 6 chain7)"
      using inst unfolding hd by blast
    then show ?thesis using uris by (simp add: emptySession_def)
  qed
  have sib: "resolveImport noAliases ''src/f0.ts'' ''./f1'' = Some ''src/f1''"
    using inst plain by simp
  have reg: "loadedFiles (loadSourceFile (Some chainFs) noAliases ''src/f0.ts'' 0 emptySession) =
      {''src/f0.ts'', ''src/f1.ts'', ''src/f2.ts'', ''src/f3.ts'', ''src/f4.ts'', ''src/f5.ts''} \<and>
    card (loadedFiles (loadSourceFile (Some chainFs) noAliases ''src/f0.ts'' 0 emptySession)) = 6"
    using inst [THEN conjunct1] inst [THEN conjunct2, THEN conjunct1]
    unfolding hd six by (simp add: emptySession_def)
  show ?thesis
    using chain7_chain len7 reg js sib by blast
qed

theorem chain_registers_five_counterexample:
  "importChain chainFs noAliases chain7 \<and>
   map snd (tsExtraLibs (loadSourceFile (Some chainFs) noAliases ''src/f0.ts'' 0 emptySession)) =
     [''file:///src/f0.ts'', ''file:///src/f1.ts'', ''file:///src/f2.ts'',
      ''file:///src/f3.ts'', ''file:///src/f4.ts'', ''file:///src/f5.ts''] \<and>
   length (tsExtraLibs (loadSourceFile (Some chainFs) noAliases ''src/f0.ts'' 0 emptySession)) \<noteq> 5"
proof -
  have "map snd (tsExtraLibs (loadSourceFile (Some chainFs) noAliases ''src/f0.ts'' 0 emptySession)) =
     [''file:///src/f0.ts'', ''file:///src/f1.ts'', ''file:///src/f2.ts'',
      ''file:///src/f3.ts'', ''file:///src/f4.ts'', ''file:///src/f5.ts'']"
    by (simp add: chain7_def chainFs_def example_defs eval_defs loadSourceFile.simps)
  moreover from this have
    "length (tsExtraLibs (loadSourceFile (Some chainFs) noAliases ''src/f0.ts'' 0 emptySession)) = 6"
    using length_map [of snd "tsExtraLibs (loadSourceFile (Some chainFs) noAliases ''src/f0.ts'' 0 emptySession)"]
    by simp
  ultimately show ?thesis using chain7_chain by simp
qed



theorem first_matching_alias_wins_witness:
  "aliasMatch ''@/*'' ''@/lib/utils'' = Some ''lib/utils'' \<and>
   aliasMatch ''@/lib/*'' ''@/lib/utils'' = Some ''utils'' \<and>
   resolvePathAlias emptyTargetAliases ''@/lib/utils'' = Some ''packages/lib/utils'' \<and>
   resolvePathAlias
     \<lparr>tsconfigPaths = [(''~/*'', [''app/*'']), (''@/*'', [''src/*'', ''lib/*'']), (''@/lib/*'', [''x/*''])],
      tsconfigBaseUrl = ''.''\<rparr> ''@/lib/utils'' = Some ''src/lib/utils''"
proof -
  have m1: "aliasMatch ''@/*'' ''@/lib/utils'' = Some ''lib/utils''"
    and m2: "aliasMatch ''@/lib/*'' ''@/lib/utils'' = Some ''utils''"
    and m3: "aliasMatch ''~/*'' ''@/lib/utils'' = None"
    by (simp_all add: eval_defs)
  have e1: "\<forall>(a, ts) \<in> set [(''@/*'', [])]. aliasMatch a ''@/lib/utils'' = None \<or> ts = []"
    by simp
  have e2: "\<forall>(a, ts) \<in> set [(''~/*'', [''app/*''])]. aliasMatch a ''@/lib/utils'' = None \<or> ts = []"
    using m3 by simp
  have t1: "aliasTarget ''.'' ''packages/lib/*'' ''utils'' = ''packages/lib/utils''"
    and t2: "aliasTarget ''.'' ''src/*'' ''lib/utils'' = ''src/lib/utils''"
    by (simp_all add: eval_defs)
  show ?thesis
    using first_matching_alias_wins [OF e1 m2, of "''packages/lib/*''" "[]" "[]" "''.''"]
      first_matching_alias_wins [OF e2 m1, of "''src/*''" "[''lib/*'']" "[(''@/lib/*'', [''x/*''])]" "''.''"]
      m1 m2 t1 t2
    by (simp add: emptyTargetAliases_def)
qed

theorem first_matching_alias_wins_counterexample:
  "aliasMatch ''@/*'' ''@/lib/utils'' = Some ''lib/utils'' \<and>
   resolvePathAlias emptyTargetAliases ''@/lib/utils'' = Some ''packages/lib/utils'' \<and>
   resolvePathAlias \<lparr>tsconfigPaths = [(''@/*'', [])], tsconfigBaseUrl = ''.''\<rparr> ''@/lib/utils'' = None"
  by (simp add: emptyTargetAliases_def eval_defs)

theorem first_target_wins_witness:
  "aliasMatch ''@/*'' ''@/x.ts'' = Some ''x.ts'' \<and>
   resolvePathAlias twoTargetAliases ''@/x.ts'' = Some ''src/x.ts'' \<and>
   loadImports libOnlyFs twoTargetAliases ''src/main.ts'' 0 [''@/x.ts''] emptySession = emptySession"
proof -
  have m: "aliasMatch ''@/*'' ''@/x.ts'' = Some ''x.ts''"
    by (simp add: eval_defs)
  have t: "aliasTarget ''.'' ''src/*'' ''x.ts'' = ''src/x.ts''"
    by (simp add: eval_defs)
  have s: "startsWith ''@/x.ts'' ''@/''"
    by (simp add: startsWith_def)
  have n: "normalizePath ''src/x.ts'' = ''src/x.ts''"
    by (simp add: eval_defs)
  have p: "probe libOnlyFs ''src/x.ts'' extensions = None"
    by (simp add: libOnlyFs_def fsOfFiles_def extensions_def)
  show ?thesis
    using first_target_wins [OF m, of "''src/*''" "[''lib/*'']" "[]" "''.''" libOnlyFs
        "''src/main.ts''" 0 emptySession] m t s n p
    by (simp add: twoTargetAliases_def aliasTarget_def Let_def)
qed

theorem first_existing_target_counterexample:
  "resolvePathAlias twoTargetAliases ''@/x.ts'' = Some ''src/x.ts'' \<and>
   exists libOnlyFs ''src/x.ts'' = Inr False \<and>
   exists libOnlyFs ''lib/x.ts'' = Inr True \<and>
   specFirstExistingTarget libOnlyFs ''.'' [''src/*'', ''lib/*''] ''x.ts'' = Some ''lib/x.ts'' \<and>
   loadedFiles (loadImports libOnlyFs twoTargetAliases ''src/main.ts'' 0 [''@/x.ts''] emptySession) = {}"
  by (simp add: twoTargetAliases_def libOnlyFs_def fsOfFiles_def specFirstExistingTarget_def
      eval_defs loadSourceFile.simps)

theorem crawler_size_filter_witness:
  "declarationFiles typesDirFs ''types'' 5 0 = [''types/small.d.ts'', ''types/big.d.ts''] \<and>
   readFile typesDirFs ''types/small.d.ts'' = Inr (replicate (500 * 1024 - 1) CHR ''x'') \<and>
   readFile typesDirFs ''types/big.d.ts'' = Inr (replicate (500 * 1024) CHR ''x'') \<and>
   loadDtsFromDir (Some typesDirFs) ''types'' 5 0 emptySession =
     addFileToMonaco ''types/small.d.ts'' (replicate (500 * 1024 - 1) CHR ''x'') emptySession \<and>
   ''types/small.d.ts'' \<in> loadedFiles (loadDtsFromDir (Some typesDirFs) ''types'' 5 0 emptySession) \<and>
   ''types/big.d.ts'' \<notin> loadedFiles (loadDtsFromDir (Some typesDirFs) ''types'' 5 0 emptySession) \<and>
   count_list (map snd (tsExtraLibs (loadDtsFromDir (Some typesDirFs) ''types'' 5 0 emptySession)))
     (fileUri ''types/small.d.ts'') = 1 \<and>
   count_list (map snd (tsExtraLibs (loadDtsFromDir (Some typesDirFs) ''types'' 5 0 emptySession)))
     (fileUri ''types/big.d.ts'') = 0 \<and>
   (replicate (500 * 1024 - 1) CHR ''x'', fileUri ''types/small.d.ts'') \<in>
     set (jsExtraLibs (loadDtsFromDir (Some typesDirFs) ''types'' 5 0 emptySession))"
proof -
  have files: "declarationFiles typesDirFs ''types'' 5 0 = [''types/small.d.ts'', ''types/big.d.ts'']"
    by (simp add: declarationFiles.simps typesDirFs_def startsWith_def endsWith_def
        heavyDirectory_def entryPath_def)
  have small: "readFile typesDirFs ''types/small.d.ts'' = Inr (replicate (500 * 1024 - 1) CHR ''x'')"
    and big: "readFile typesDirFs ''types/big.d.ts'' = Inr (replicate (500 * 1024) CHR ''x'')"
    by (simp_all add: typesDirFs_def)
  have run: "loadDtsFromDir (Some typesDirFs) ''types'' 5 0 emptySession =
      addFileToMonaco ''types/small.d.ts'' (replicate (500 * 1024 - 1) CHR ''x'') emptySession"
    using crawler_size_filter [of typesDirFs "''types''" 5 0 emptySession, THEN conjunct1]
    by (simp add: files small big)
  show ?thesis
    unfolding run using files small big
    by (simp add: addFileToMonaco_def emptySession_def fileUri_def)
qed

lemmas package_eval =
  initTypeSystem_def loadAllNodeModulesTypes_def loadPackageTypes_def loadProjectSources_def
  priorityPackages_def entryPoints_def typesPackages_def loadDtsFromDir.simps
  loadSourceFile.simps

theorem external_specifiers_not_routed_witness:
  "\<not> startsWith ''lodash'' ''.'' \<and> \<not> startsWith ''lodash'' ''@/'' \<and> \<not> startsWith ''lodash'' ''~/'' \<and>
   packageLoads (loadSourceFile (Some lodashFs) noAliases ''src/index.ts'' 0 emptySession) = [] \<and>
   loadImports lodashFs noAliases ''src/index.ts'' 0 [''lodash''] emptySession = emptySession \<and>
   set (packageLoads (snd (initTypeSystem (Some lodashFs) lodashManifest noAliases emptySession))) \<subseteq>
     set priorityPackages \<and>
   startsWith ''./B'' ''.'' \<and>
   loadImports cycleFs noAliases ''src/A.ts'' 0 [''./B''] emptySession =
     loadSourceFile (Some cycleFs) noAliases ''src/B'' 1 emptySession \<and>
   startsWith ''@/A'' ''@/'' \<and>
   resolvePathAlias twoTargetAliases ''@/A'' = Some ''src/A'' \<and>
   loadImports cycleFs twoTargetAliases ''index.ts'' 0 [''@/A''] emptySession =
     loadSourceFile (Some cycleFs) twoTargetAliases ''src/A'' 1 emptySession \<and>
   resolvePathAlias noAliases ''@/A'' = None \<and>
   loadImports cycleFs noAliases ''index.ts'' 0 [''@/A''] emptySession = emptySession"
proof -
  have ext: "\<not> startsWith ''lodash'' ''.'' \<and> \<not> startsWith ''lodash'' ''@/'' \<and>
      \<not> startsWith ''lodash'' ''~/''"
    by (simp add: startsWith_def)
  have dirs: "typesDirectoryPackages (Some lodashFs) = {}"
    by (simp add: typesDirectoryPackages_def lodashFs_def)
  have rel: "startsWith ''./B'' ''.''" and marked: "startsWith ''@/A'' ''@/''"
    by (simp_all add: startsWith_def)
  have stem: "normalizePath (replaceSlashDotSlash
      (joinWith ''/'' (butlast (splitOn CHR ''/'' ''src/A.ts'')) @ ''/'' @ ''./B'')) = ''src/B''"
    by (simp add: eval_defs)
  have two: "resolvePathAlias twoTargetAliases ''@/A'' = Some ''src/A''"
    by (simp add: twoTargetAliases_def eval_defs)
  have none: "resolvePathAlias noAliases ''@/A'' = None"
    by (simp add: noAliases_def eval_defs)
  have norm: "normalizePath ''src/A'' = ''src/A''"
    by (simp add: eval_defs)
  have a: "packageLoads (loadSourceFile (Some lodashFs) noAliases ''src/index.ts'' 0
        emptySession) = [] \<and>
      loadImports lodashFs noAliases ''src/index.ts'' 0 [''lodash''] emptySession =
        emptySession \<and>
      set (packageLoads (snd (initTypeSystem (Some lodashFs) lodashManifest noAliases
        emptySession))) \<subseteq> set priorityPackages"
    using external_specifiers_not_routed [of "Some lodashFs" noAliases "''src/index.ts''" 0
        emptySession lodashFs "''src/index.ts''" "[]" "''lodash''" lodashManifest] ext dirs
    by (simp add: emptySession_def)
  have b: "loadImports cycleFs noAliases ''src/A.ts'' 0 [''./B''] emptySession =
      loadSourceFile (Some cycleFs) noAliases ''src/B'' 1 emptySession"
    using external_specifiers_not_routed [of "Some cycleFs" noAliases "''src/A.ts''" 0
        emptySession cycleFs "''src/A.ts''" "[]" "''./B''" lodashManifest] rel
    unfolding stem by simp
  have c: "loadImports cycleFs twoTargetAliases ''index.ts'' 0 [''@/A''] emptySession =
      loadSourceFile (Some cycleFs) twoTargetAliases ''src/A'' 1 emptySession"
    using external_specifiers_not_routed [of "Some cycleFs" twoTargetAliases "''index.ts''" 0
        emptySession cycleFs "''index.ts''" "[]" "''@/A''" lodashManifest] marked
    unfolding two by (simp add: norm)
  have d: "loadImports cycleFs noAliases ''index.ts'' 0 [''@/A''] emptySession = emptySession"
    using external_specifiers_not_routed [of "Some cycleFs" noAliases "''index.ts''" 0
        emptySession cycleFs "''index.ts''" "[]" "''@/A''" lodashManifest] marked
    unfolding none by simp
  show ?thesis
    using ext a rel b marked two c none d by blast
qed

theorem external_specifiers_routed_counterexample:
  "importSpecifiers (''import _ from '' @ sq ''lodash'') = [''lodash''] \<and>
   resolveImport noAliases ''src/index.ts'' ''lodash'' = None \<and>
   exists lodashFs ''node_modules/lodash/index.d.ts'' = Inr True \<and>
   fst (initTypeSystem (Some lodashFs) lodashManifest noAliases emptySession) = Returned \<and>
   packageLoads (snd (initTypeSystem (Some lodashFs) lodashManifest noAliases emptySession)) =
     priorityPackages \<and>
   ''lodash'' \<notin> set priorityPackages \<and>
   loadedFiles (snd (initTypeSystem (Some lodashFs) lodashManifest noAliases emptySession)) =
     {''src/index.ts''} \<and>
   loadedFiles (snd (loadPackageTypes (Some lodashFs) lodashManifest ''lodash'' emptySession)) =
     {''node_modules/lodash/index.d.ts''}"
  by (simp add: package_eval lodashFs_def lodashManifest_def loadManifestTypes_def noAliases_def
      sq_def eval_defs)

end
